theory Spec2Isabelle
  imports Main "HOL-Library.Sublist"
begin

section \<open>Python strings\<close>

text \<open>
  Python \<^verbatim>\<open>str\<close> values are modelled as \<^typ>\<open>string\<close>, the encoded text. Searching
  and replacing work on it position by position. \<^verbatim>\<open>str.upper()\<close> takes its case mapping
  from the Unicode tables of the interpreter, which are not part of the repository: it
  is a parameter \<open>str_upper\<close> of every function of the model that uppercases.
\<close>

text \<open>\<^verbatim>\<open>sub in s\<close> on strings: \<open>sub\<close> occurs in \<open>s\<close> as a contiguous substring.\<close>

fun py_in :: "string \<Rightarrow> string \<Rightarrow> bool" where
  "py_in sub [] = (sub = [])"
| "py_in sub (c # cs) = (prefix sub (c # cs) \<or> py_in sub cs)"

text \<open>
  \<^verbatim>\<open>s.replace(old, new)\<close>: one pass from the left; every occurrence of \<open>old\<close> met by
  the scan is replaced and the scan goes on behind it. With an empty \<open>old\<close>, Python puts
  \<open>new\<close> before every character and at the end.
\<close>

function py_replace :: "string \<Rightarrow> string \<Rightarrow> string \<Rightarrow> string" where
  "py_replace old new [] = (if old = [] then new else [])"
| "py_replace old new (c # cs) =
     (if old = [] then new @ c # py_replace old new cs
      else if prefix old (c # cs)
        then new @ py_replace old new (drop (length old) (c # cs))
      else c # py_replace old new cs)"
  by pat_completeness auto
termination
  by (relation "measure (\<lambda>(old, new, s). length s)") (auto simp: neq_Nil_conv)

text \<open>
  What \<^verbatim>\<open>s.upper()\<close> returns for a text of ASCII characters only: \<open>a\<close>..\<open>z\<close> become
  \<open>A\<close>..\<open>Z\<close>, every other character stays. The example runs, whose labels are ASCII,
  take it for \<open>str_upper\<close>; for other text it does not stand for \<^verbatim>\<open>str.upper()\<close>.
\<close>

definition ascii_upper_char :: "char \<Rightarrow> char" where
  "ascii_upper_char c =
     (case map_of (zip ''abcdefghijklmnopqrstuvwxyz'' ''ABCDEFGHIJKLMNOPQRSTUVWXYZ'') c of
        Some u \<Rightarrow> u
      | None \<Rightarrow> c)"

definition ascii_upper :: "string \<Rightarrow> string" where
  "ascii_upper s = map ascii_upper_char s"

text \<open>Decimal rendering of a natural number, as \<^verbatim>\<open>str(n)\<close> and \<^verbatim>\<open>f"{n}"\<close> give.\<close>

definition digit_char :: "nat \<Rightarrow> char" where
  "digit_char d = ''0123456789'' ! d"

function show_nat :: "nat \<Rightarrow> string" where
  "show_nat n = (if n < 10 then [digit_char n] else show_nat (n div 10) @ [digit_char (n mod 10)])"
  by pat_completeness auto
termination
  by (relation "measure id") auto

declare show_nat.simps [simp del]

text \<open>\<^verbatim>\<open>f"{n:02d}"\<close> and \<^verbatim>\<open>f"{n:04d}"\<close>: zero padding on the left up to a width.\<close>

definition zero_pad :: "nat \<Rightarrow> nat \<Rightarrow> string" where
  "zero_pad w n = replicate (w - length (show_nat n)) (CHR ''0'') @ show_nat n"

section \<open>Tables\<close>

text \<open>
  A pandas \<^verbatim>\<open>DataFrame\<close>: the column labels in order, and the rows, each holding
  one cell per column; \<open>None\<close> is a missing cell (NaN). The cell values themselves are
  not inspected by the script, so their type is a parameter.
\<close>

record 'v DataFrame =
  columns :: "string list"
  rows :: "'v option list list"

text \<open>
  A record of a JSON array after pandas has flattened nested objects
  (\<^verbatim>\<open>PARENT.CHILD\<close> labels): the list of its (label, value) pairs. The flattening
  itself happens inside \<^verbatim>\<open>pd.json_normalize\<close> and is not modelled.
\<close>

type_synonym 'v json_record = "(string \<times> 'v) list"

text \<open>Labels in order of first appearance.\<close>

definition ordered_union :: "'a list \<Rightarrow> 'a list" where
  "ordered_union xs = rev (remdups (rev xs))"

definition row_of :: "string list \<Rightarrow> 'v json_record \<Rightarrow> 'v option list" where
  "row_of cols r = map (map_of r) cols"

text \<open>\<^verbatim>\<open>DataFrame(records)\<close>: one row per record, one column per label met.\<close>

definition frame_of_records :: "'v json_record list \<Rightarrow> 'v DataFrame" where
  "frame_of_records recs =
     (let cols = ordered_union (concat (map (map fst) recs))
      in \<lparr>columns = cols, rows = map (row_of cols) recs\<rparr>)"

text \<open>\<^verbatim>\<open>pd.DataFrame()\<close>.\<close>

definition empty_frame :: "'v DataFrame" where
  "empty_frame = \<lparr>columns = [], rows = []\<rparr>"

text \<open>The cell of a row under a label; a label the frame does not have gives NaN.\<close>

definition cell_at :: "string list \<Rightarrow> 'v option list \<Rightarrow> string \<Rightarrow> 'v option" where
  "cell_at cols r c = (case map_of (zip cols r) c of Some v \<Rightarrow> v | None \<Rightarrow> None)"

text \<open>
  \<^verbatim>\<open>pd.concat(frames, ignore_index=True)\<close>: the union of the columns, the rows of all
  frames one after the other, each re-aligned to the union.
\<close>

definition pd_concat :: "'v DataFrame list \<Rightarrow> 'v DataFrame" where
  "pd_concat frames =
     (let cols = ordered_union (concat (map columns frames))
      in \<lparr>columns = cols,
          rows = concat (map (\<lambda>f. map (\<lambda>r. map (cell_at (columns f) r) cols) (rows f)) frames)\<rparr>)"

text \<open>\<^verbatim>\<open>df.rename(columns=mapping, inplace=True)\<close> with a dict.\<close>

definition rename_columns :: "(string \<times> string) list \<Rightarrow> 'v DataFrame \<Rightarrow> 'v DataFrame" where
  "rename_columns mapping df =
     df\<lparr>columns := map (\<lambda>c. case map_of mapping c of Some c' \<Rightarrow> c' | None \<Rightarrow> c) (columns df)\<rparr>"

text \<open>
  Lines 170--171 of \<^verbatim>\<open>main\<close>: the dict comprehension \<^verbatim>\<open>rename_cols\<close> and the
  rename of the ticket table with it.
\<close>

definition rename_cols :: "'v DataFrame \<Rightarrow> (string \<times> string) list" where
  "rename_cols ticket_df =
     map (\<lambda>col. (col, py_replace ''CUSTOM_FIELDS.'' [] col))
       (filter (py_in ''CUSTOM_FIELDS.'') (columns ticket_df))"

definition rename_ticket_columns :: "'v DataFrame \<Rightarrow> 'v DataFrame" where
  "rename_ticket_columns ticket_df = rename_columns (rename_cols ticket_df) ticket_df"

section \<open>Exceptions, events and the state of a run\<close>

text \<open>
  An exception is its class, as far as the script's \<^verbatim>\<open>except\<close> clauses tell classes
  apart, and its message \<^verbatim>\<open>str(e)\<close>. Every subclass of \<^verbatim>\<open>requests.RequestException\<close>
  (HTTPError, ConnectionError, Timeout, ...) counts as \<open>RequestException\<close>. All modelled
  exceptions are instances of \<^verbatim>\<open>Exception\<close>.
\<close>

datatype exc_class =
  RequestException | NameError | UnboundLocalError | KeyError | AttributeError | OtherException

datatype py_exception = Exc (class_of: exc_class) (str_of: string)

datatype level = INFO | WARNING | ERROR

text \<open>
  What a run does to the outside world, in order: a \<^verbatim>\<open>logging\<close> call, a call of
  \<^verbatim>\<open>requests.get\<close> on a URL, a \<^verbatim>\<open>time.sleep\<close>, a blob written at a path.
\<close>

datatype 'v event =
    Log level string
  | Get string
  | Sleep nat
  | Upload string "'v DataFrame"

text \<open>
  A response of the API: status code and reason phrase, the value of
  \<^verbatim>\<open>response.headers.get('Link')\<close>, and what \<^verbatim>\<open>response.json()\<close> does: it raises, or it
  returns an object whose keys hold arrays of records.
\<close>

record 'v response =
  status_code :: nat
  reason :: string
  link_header :: "string option"
  json :: "py_exception + (string \<times> 'v json_record list) list"

text \<open>What one call of \<^verbatim>\<open>requests.get\<close> does: it raises, or it returns a response.\<close>

datatype 'v http_outcome = Raises py_exception | Response "'v response"

text \<open>
  The state threaded through a run: the outcomes that the coming calls of
  \<^verbatim>\<open>requests.get\<close> will have, in order, and the events so far. A run that asks for
  more outcomes than \<open>network\<close> holds has no result in the model (\<open>None\<close>).
\<close>

record 'v state =
  network :: "'v http_outcome list"
  trace :: "'v event list"

text \<open>
  The names bound at module level when a function of the script runs: the imports of
  lines 9--15, the constants of lines 17--25 and the functions. \<^verbatim>\<open>time\<close> is not among
  them: the script never imports it.
\<close>

definition module_globals :: "string list" where
  "module_globals =
     [''logging'', ''pd'', ''requests'', ''re'', ''Session'', ''BlobServiceClient'',
      ''BlobClient'', ''ContainerClient'', ''StringIO'', ''api_creds_path'', ''sf_creds_path'',
      ''account_name'', ''container_name'', ''sas_token'', ''domain'', ''password'',
      ''create_session'', ''get_api_key'', ''get_updated_timestamp'',
      ''fetch_data_from_endpoint'', ''upload_df_to_blob'', ''main'']"

text \<open>Reading a global name that is neither bound in the module nor a builtin.\<close>

definition load_global :: "string \<Rightarrow> py_exception option" where
  "load_global name =
     (if name \<in> set module_globals then None
      else Some (Exc NameError (''name '' @ [CHR 0x27] @ name @ [CHR 0x27] @ '' is not defined'')))"

section \<open>The paginated fetcher\<close>

text \<open>\<^verbatim>\<open>response.raise_for_status()\<close>: an HTTPError for a status from 400 to 599.\<close>

definition raise_for_status :: "'v response \<Rightarrow> string \<Rightarrow> py_exception option" where
  "raise_for_status r u =
     (if 400 \<le> status_code r \<and> status_code r < 500
        then Some (Exc RequestException
               (show_nat (status_code r) @ '' Client Error: '' @ reason r @ '' for url: '' @ u))
      else if 500 \<le> status_code r \<and> status_code r < 600
        then Some (Exc RequestException
               (show_nat (status_code r) @ '' Server Error: '' @ reason r @ '' for url: '' @ u))
      else None)"

text \<open>
  \<^verbatim>\<open>pd.json_normalize(data, record_path=record_path)\<close>: the records under the key as a
  table; a KeyError when the key is missing.
\<close>

definition json_normalize ::
  "(string \<times> 'v json_record list) list \<Rightarrow> string \<Rightarrow> py_exception + 'v DataFrame" where
  "json_normalize data record_path =
     (case map_of data record_path of
        None \<Rightarrow> Inl (Exc KeyError
          ([CHR 0x22] @ ''Key '' @ [CHR 0x27] @ record_path @ [CHR 0x27] @
           '' not found. If specifying a record_path, all elements of data should have the path.''
           @ [CHR 0x22]))
      | Some recs \<Rightarrow> Inr (frame_of_records recs))"

text \<open>
  \<^verbatim>\<open>re.search('<(.*?)>', s)\<close> and its \<^verbatim>\<open>group(1)\<close>. \<open>lazy_group\<close> matches
  \<^verbatim>\<open>(.*?)>\<close> from the position behind a \<^verbatim>\<open><\<close>: the shortest run of characters other
  than a line feed that a \<^verbatim>\<open>>\<close> follows. The search takes the leftmost \<^verbatim>\<open><\<close> at which
  that succeeds.
\<close>

fun lazy_group :: "string \<Rightarrow> string option" where
  "lazy_group [] = None"
| "lazy_group (c # cs) =
     (if c = CHR ''>'' then Some []
      else if c = CHR 0x0A then None
      else map_option (Cons c) (lazy_group cs))"

fun re_search_group :: "string \<Rightarrow> string option" where
  "re_search_group [] = None"
| "re_search_group (c # cs) =
     (if c = CHR ''<''
        then (case lazy_group cs of Some g \<Rightarrow> Some g | None \<Rightarrow> re_search_group cs)
      else re_search_group cs)"

text \<open>Lines 117--119: the value given to \<^verbatim>\<open>url\<close> after a page.\<close>

definition next_url :: "string option \<Rightarrow> string option" where
  "next_url link =
     (case link of
        None \<Rightarrow> None
      | Some h \<Rightarrow> if h = [] then None else re_search_group h)"

text \<open>The test of \<^verbatim>\<open>while url:\<close>: neither \<^verbatim>\<open>None\<close> nor the empty string.\<close>

definition truthy :: "string option \<Rightarrow> bool" where
  "truthy u = (case u of None \<Rightarrow> False | Some s \<Rightarrow> s \<noteq> [])"

text \<open>
  The local variables of the loop. \<open>response\<close> is \<open>None\<close> as long as the name is
  unbound, that is until the first \<^verbatim>\<open>requests.get\<close> has returned.
\<close>

record 'v locals =
  url :: "string option"
  all_data :: "'v DataFrame list"
  response :: "'v response option"

text \<open>
  Lines 109--119, the body of the \<^verbatim>\<open>try\<close>: the new locals, or the exception raised
  with the locals at that moment.
\<close>

definition try_body ::
  "string \<Rightarrow> string \<Rightarrow> 'v http_outcome \<Rightarrow> 'v locals \<Rightarrow> (py_exception \<times> 'v locals) + 'v locals" where
  "try_body record_path u out lv =
     (case out of
        Raises e \<Rightarrow> Inl (e, lv)
      | Response r \<Rightarrow>
          (let lv1 = lv\<lparr>response := Some r\<rparr> in
           case raise_for_status r u of
             Some e \<Rightarrow> Inl (e, lv1)
           | None \<Rightarrow>
               (case json r of
                  Inl e \<Rightarrow> Inl (e, lv1)
                | Inr data \<Rightarrow>
                    (case json_normalize data record_path of
                       Inl e \<Rightarrow> Inl (e, lv1)
                     | Inr df \<Rightarrow>
                         Inr (lv1\<lparr>all_data := all_data lv1 @ [df],
                                  url := next_url (link_header r)\<rparr>)))))"

datatype 'v control = Continue "'v locals" | Break "'v locals" | Raise py_exception

text \<open>
  Lines 121--128, the handler. It reads the variable \<^verbatim>\<open>response\<close>, which is unbound
  when the very first \<^verbatim>\<open>requests.get\<close> raised, and the global \<^verbatim>\<open>time\<close>. The text of
  the UnboundLocalError is the one of Python up to 3.10.
\<close>

definition except_handler ::
  "string \<Rightarrow> py_exception \<Rightarrow> 'v locals \<Rightarrow> 'v control \<times> 'v event list" where
  "except_handler u e lv =
     (if class_of e \<noteq> RequestException then (Raise e, [])
      else case response lv of
        None \<Rightarrow>
          (Raise (Exc UnboundLocalError
             (''local variable '' @ [CHR 0x27] @ ''response'' @ [CHR 0x27] @
              '' referenced before assignment'')), [])
      | Some r \<Rightarrow>
          if status_code r = 429
          then (let warning = Log WARNING
                      ''Rate limit reached. Waiting for 60 seconds before retrying...'' in
                case load_global ''time'' of
                  Some name_error \<Rightarrow> (Raise name_error, [warning])
                | None \<Rightarrow> (Continue lv, [warning, Sleep 60]))
          else (Break lv,
                [Log ERROR (''Error fetching data from '' @ u @ ''. Error: '' @ str_of e)]))"

text \<open>One pass through the body of the \<^verbatim>\<open>while\<close> loop, with \<^verbatim>\<open>url\<close> holding \<open>u\<close>.\<close>

definition fetch_iteration ::
  "string \<Rightarrow> string \<Rightarrow> 'v http_outcome \<Rightarrow> 'v locals \<Rightarrow> 'v control \<times> 'v event list" where
  "fetch_iteration record_path u out lv =
     (case try_body record_path u out lv of
        Inr lv' \<Rightarrow> (Continue lv', [])
      | Inl (e, lv') \<Rightarrow> except_handler u e lv')"

text \<open>
  Lines 107--128, the loop. Each pass takes the next outcome of the network; the
  result holds the locals at the exit (or the exception that left the function), the
  outcomes not yet used and the events.
\<close>

fun fetch_loop ::
  "string \<Rightarrow> 'v locals \<Rightarrow> 'v http_outcome list \<Rightarrow> 'v event list \<Rightarrow>
     ((py_exception + 'v locals) \<times> 'v http_outcome list \<times> 'v event list) option" where
  "fetch_loop record_path lv [] tr = (if truthy (url lv) then None else Some (Inr lv, [], tr))"
| "fetch_loop record_path lv (out # net) tr =
     (case url lv of
        None \<Rightarrow> Some (Inr lv, out # net, tr)
      | Some u \<Rightarrow>
          if u = [] then Some (Inr lv, out # net, tr)
          else (case fetch_iteration record_path u out lv of
                  (Continue lv', evs) \<Rightarrow> fetch_loop record_path lv' net (tr @ Get u # evs)
                | (Break lv', evs) \<Rightarrow> Some (Inr lv', net, tr @ Get u # evs)
                | (Raise e, evs) \<Rightarrow> Some (Inl e, net, tr @ Get u # evs)))"

text \<open>
  Line 134, \<^verbatim>\<open>df_data.columns = df_data.columns.str.upper()\<close>. The labels of a table
  without columns are an empty integer range (pandas from 2.0 on), and the \<^verbatim>\<open>.str\<close>
  accessor of such an index raises an AttributeError. A table has no columns when no
  page was collected, when the pages hold no record, and when no record has a key.
\<close>

definition upper_columns ::
  "(string \<Rightarrow> string) \<Rightarrow> 'v DataFrame \<Rightarrow> py_exception + 'v DataFrame" where
  "upper_columns str_upper df =
     (if columns df = []
      then Inl (Exc AttributeError ''Can only use .str accessor with string values!'')
      else Inr (df\<lparr>columns := map str_upper (columns df)\<rparr>))"

text \<open>
  \<^verbatim>\<open>fetch_data_from_endpoint\<close>. The credentials and the content-type header go
  unchanged into every \<^verbatim>\<open>requests.get\<close>.
\<close>

definition fetch_data_from_endpoint ::
  "(string \<Rightarrow> string) \<Rightarrow> string \<Rightarrow> string \<Rightarrow> string \<Rightarrow> string \<Rightarrow> string \<Rightarrow> 'v state \<Rightarrow>
     ((py_exception + 'v DataFrame) \<times> 'v state) option" where
  "fetch_data_from_endpoint str_upper api_key domain password endpoint record_path st =
     (let url0 = ''https://'' @ domain @ ''.freshservice.com/api/v2/'' @ endpoint;
          tr0 = trace st @ [Log INFO (''Fetching data from '' @ url0 @ ''...'')]
      in case fetch_loop record_path \<lparr>url = Some url0, all_data = [], response = None\<rparr>
                (network st) tr0 of
           None \<Rightarrow> None
         | Some (Inl e, net, tr) \<Rightarrow> Some (Inl e, \<lparr>network = net, trace = tr\<rparr>)
         | Some (Inr lv, net, tr) \<Rightarrow>
             (case upper_columns str_upper
                     (if all_data lv \<noteq> [] then pd_concat (all_data lv) else empty_frame) of
                Inl e \<Rightarrow> Some (Inl e, \<lparr>network = net, trace = tr\<rparr>)
              | Inr df_data \<Rightarrow>
                  Some (Inr df_data,
                    \<lparr>network = net,
                     trace = tr @ [Log INFO (''Finished fetching. Total records retrieved: '' @
                                     show_nat (length (rows df_data)) @ ''.'')]\<rparr>)))"

section \<open>The watermark reader\<close>

text \<open>
  Modelled from the spec: the declaration of the \<^verbatim>\<open>TICKETS\<close> table is not in the
  repository. The spec gives it "two nullable timestamp columns", "already UTC-naive";
  a timestamp is modelled to the second, and \<open>None\<close> is SQL's NULL.
\<close>

record timestamp =
  year :: nat
  month :: nat
  day :: nat
  hour :: nat
  minute :: nat
  second :: nat

record ticket_row =
  UPDATED_AT :: "timestamp option"
  CREATED_AT :: "timestamp option"

text \<open>The order of timestamps: field by field, the year first.\<close>

fun lex_le :: "nat list \<Rightarrow> nat list \<Rightarrow> bool" where
  "lex_le [] ys = True"
| "lex_le (x # xs) [] = False"
| "lex_le (x # xs) (y # ys) = (x < y \<or> (x = y \<and> lex_le xs ys))"

definition fields :: "timestamp \<Rightarrow> nat list" where
  "fields t = [year t, month t, day t, hour t, minute t, second t]"

definition ts_le :: "timestamp \<Rightarrow> timestamp \<Rightarrow> bool" where
  "ts_le a b = lex_le (fields a) (fields b)"

text \<open>
  The query of line 69,
  \<^verbatim>\<open>SELECT IFNULL(MAX(COALESCE(UPDATED_AT, CREATED_AT)), '2001-04-16T00:00:00Z') AS X FROM TICKETS\<close>,
  read as SQL: \<open>COALESCE\<close> takes the first argument that is not NULL, \<open>MAX_sql\<close> skips
  NULLs and is NULL over no value, \<open>IFNULL\<close> replaces a NULL by its second argument.
\<close>

definition COALESCE :: "'a option \<Rightarrow> 'a option \<Rightarrow> 'a option" where
  "COALESCE a b = (case a of Some x \<Rightarrow> Some x | None \<Rightarrow> b)"

definition greater_of :: "timestamp option \<Rightarrow> timestamp option \<Rightarrow> timestamp option" where
  "greater_of a b =
     (case a of
        None \<Rightarrow> b
      | Some x \<Rightarrow> (case b of None \<Rightarrow> Some x | Some y \<Rightarrow> Some (if ts_le x y then y else x)))"

definition MAX_sql :: "timestamp option list \<Rightarrow> timestamp option" where
  "MAX_sql vs = foldr greater_of vs None"

definition IFNULL :: "'a option \<Rightarrow> 'a \<Rightarrow> 'a" where
  "IFNULL a d = (case a of Some x \<Rightarrow> x | None \<Rightarrow> d)"

text \<open>
  Modelled from the spec: how the warehouse types the column \<^verbatim>\<open>X\<close> is not in the
  repository. With timestamp columns the aggregate is a timestamp, and the text given to
  \<^verbatim>\<open>IFNULL\<close> as its second argument is converted to one: \<open>TO_TIMESTAMP\<close> reads the
  fields of a text \<^verbatim>\<open>YYYY-MM-DDTHH:MM:SSZ\<close>; the timestamp is UTC-naive, so the \<open>Z\<close> adds
  nothing. This is the spec's "fixed sentinel date".
\<close>

definition digit_val :: "char \<Rightarrow> nat" where
  "digit_val c = length (takeWhile (\<lambda>d. d \<noteq> c) ''0123456789'')"

definition nat_of_digits :: "string \<Rightarrow> nat" where
  "nat_of_digits ds = foldl (\<lambda>n c. 10 * n + digit_val c) 0 ds"

definition TO_TIMESTAMP :: "string \<Rightarrow> timestamp" where
  "TO_TIMESTAMP s =
     \<lparr>year = nat_of_digits (take 4 s),
      month = nat_of_digits (take 2 (drop 5 s)),
      day = nat_of_digits (take 2 (drop 8 s)),
      hour = nat_of_digits (take 2 (drop 11 s)),
      minute = nat_of_digits (take 2 (drop 14 s)),
      second = nat_of_digits (take 2 (drop 17 s))\<rparr>"

definition watermark_query :: "ticket_row list \<Rightarrow> timestamp" where
  "watermark_query tickets =
     IFNULL (MAX_sql (map (\<lambda>r. COALESCE (UPDATED_AT r) (CREATED_AT r)) tickets))
       (TO_TIMESTAMP ''2001-04-16T00:00:00Z'')"

text \<open>
  \<^verbatim>\<open>str(timestamp_value)\<close> for the timestamp that \<^verbatim>\<open>toPandas\<close> delivers: date and time
  with a space between them.
\<close>

definition str_timestamp :: "timestamp \<Rightarrow> string" where
  "str_timestamp t =
     zero_pad 4 (year t) @ ''-'' @ zero_pad 2 (month t) @ ''-'' @ zero_pad 2 (day t) @ '' '' @
     zero_pad 2 (hour t) @ '':'' @ zero_pad 2 (minute t) @ '':'' @ zero_pad 2 (second t)"

text \<open>
  An open warehouse session, as far as the script uses it: what the query of line 69
  meets (an exception, or the rows of \<^verbatim>\<open>TICKETS\<close>) and what \<^verbatim>\<open>close()\<close> does.
\<close>

record session =
  tickets :: "py_exception + ticket_row list"
  close_raises :: "py_exception option"

definition get_updated_timestamp :: "session \<Rightarrow> py_exception + string" where
  "get_updated_timestamp session =
     (case tickets session of
        Inl e \<Rightarrow> Inl e
      | Inr tbl \<Rightarrow>
          (let timestamp_value = watermark_query tbl;
               timestamp_str = str_timestamp timestamp_value;
               iso_formatted_timestamp = py_replace '' '' ''T'' timestamp_str @ ''Z''
           in Inr iso_formatted_timestamp))"

definition session_close :: "session \<Rightarrow> py_exception + unit" where
  "session_close session = (case close_raises session of Some e \<Rightarrow> Inl e | None \<Rightarrow> Inr ())"

section \<open>Credentials, uploader and orchestrator\<close>

text \<open>
  The parts of the outside world that do not change during a run: the credential
  files (what lines 39--40 and lines 52--53 make of the file at a path), the warehouse
  (what \<^verbatim>\<open>Session.builder.configs(...).create()\<close> does) and the blob store (the
  exception, if any, that writing a blob at a path raises).
\<close>

record environment =
  connection_parameters :: "string \<Rightarrow> py_exception + (string \<times> string) list"
  create :: "(string \<times> string) list \<Rightarrow> py_exception + session"
  api_key_at :: "string \<Rightarrow> py_exception + string"
  upload_blob :: "string \<Rightarrow> py_exception option"

definition api_creds_path :: string where
  "api_creds_path = ''C:'' @ [CHR 0x5C] @ ''Credentials'' @ [CHR 0x5C] @ ''FS_API_KEY.csv''"

definition sf_creds_path :: string where
  "sf_creds_path =
     ''C:'' @ [CHR 0x5C] @ ''Credentials'' @ [CHR 0x5C] @ ''SNOWPARK_DEV_LOADER_CREDS.CSV''"

definition account_name :: string where "account_name = []"
definition container_name :: string where "container_name = []"
definition sas_token :: string where "sas_token = []"
definition domain :: string where "domain = []"
definition password :: string where "password = ''X''"

definition create_session ::
  "environment \<Rightarrow> string \<Rightarrow> 'v state \<Rightarrow> (py_exception + session) \<times> 'v state" where
  "create_session env creds_path st =
     (case connection_parameters env creds_path of
        Inl e \<Rightarrow> (Inl e, st)
      | Inr params \<Rightarrow>
          (create env params,
           st\<lparr>trace := trace st @ [Log INFO ''Creating Snowflake session...'']\<rparr>))"

definition get_api_key :: "environment \<Rightarrow> string \<Rightarrow> py_exception + string" where
  "get_api_key env creds_path = api_key_at env creds_path"

text \<open>
  \<^verbatim>\<open>upload_df_to_blob\<close>: the table goes to the blob at \<open>blob_path\<close>, replacing what
  was there. The CSV text of the table is not modelled: the event holds the table.
\<close>

definition upload_df_to_blob ::
  "environment \<Rightarrow> 'v DataFrame \<Rightarrow> string \<Rightarrow> string \<Rightarrow> string \<Rightarrow> string \<Rightarrow> 'v state \<Rightarrow>
     (py_exception + unit) \<times> 'v state" where
  "upload_df_to_blob env df account container token blob_path st =
     (case upload_blob env blob_path of
        Some e \<Rightarrow> (Inl e, st)
      | None \<Rightarrow> (Inr (), st\<lparr>trace := trace st @ [Upload blob_path df]\<rparr>))"

text \<open>
  Sequencing of statements that may raise: the second runs on the value and the state
  the first leaves, unless the first raised or never returned.
\<close>

type_synonym ('a, 'v) run = "'v state \<Rightarrow> ((py_exception + 'a) \<times> 'v state) option"

definition and_then :: "('a, 'v) run \<Rightarrow> ('a \<Rightarrow> ('b, 'v) run) \<Rightarrow> ('b, 'v) run" where
  "and_then m f st =
     (case m st of
        None \<Rightarrow> None
      | Some (Inl e, st') \<Rightarrow> Some (Inl e, st')
      | Some (Inr a, st') \<Rightarrow> f a st')"

definition returns :: "('v state \<Rightarrow> (py_exception + 'a) \<times> 'v state) \<Rightarrow> ('a, 'v) run" where
  "returns f st = Some (f st)"

definition pure :: "py_exception + 'a \<Rightarrow> ('a, 'v) run" where
  "pure x st = Some (x, st)"

text \<open>Lines 161--189, the body of the \<^verbatim>\<open>try\<close> of \<^verbatim>\<open>main\<close>.\<close>

definition main_try :: "(string \<Rightarrow> string) \<Rightarrow> environment \<Rightarrow> (unit, 'v) run" where
  "main_try str_upper env =
     and_then (returns (create_session env sf_creds_path)) (\<lambda>session.
     and_then (pure (get_api_key env api_creds_path)) (\<lambda>api_key.
     and_then (pure (get_updated_timestamp session)) (\<lambda>updated_since.
     and_then (pure (session_close session)) (\<lambda>_.
     and_then (fetch_data_from_endpoint str_upper api_key domain password
                 (''tickets?per_page=100&updated_since='' @ updated_since) ''tickets'')
       (\<lambda>ticket_df.
     let ticket_df = rename_ticket_columns ticket_df in
     and_then (fetch_data_from_endpoint str_upper api_key domain password
                 ''ticket_form_fields?per_page=100'' ''ticket_fields'')
       (\<lambda>ticket_fields_df.
     and_then (fetch_data_from_endpoint str_upper api_key domain password
                 ''groups?per_page=100'' ''groups'')
       (\<lambda>agent_groups_df.
     and_then (returns (upload_df_to_blob env agent_groups_df account_name container_name
                 sas_token ''API_FRESHSERVICE/AGENTGROUPS.csv'')) (\<lambda>_.
     and_then (returns (upload_df_to_blob env ticket_df account_name container_name
                 sas_token ''API_FRESHSERVICE/TICKETS.csv'')) (\<lambda>_.
     returns (upload_df_to_blob env ticket_fields_df account_name container_name
                 sas_token ''API_FRESHSERVICE/TICKET_FIELDS.csv''))))))))))"

text \<open>
  \<^verbatim>\<open>main\<close>: the \<^verbatim>\<open>try\<close> and its handler, lines 191--196. \<open>Inr ()\<close> is a return
  of \<^verbatim>\<open>main\<close>, \<open>Inl e\<close> is \<open>e\<close> leaving it.
\<close>

definition main :: "(string \<Rightarrow> string) \<Rightarrow> environment \<Rightarrow> (unit, 'v) run" where
  "main str_upper env st =
     (case main_try str_upper env st of
        None \<Rightarrow> None
      | Some (Inr u, st') \<Rightarrow> Some (Inr (), st')
      | Some (Inl e, st') \<Rightarrow>
          if py_in ''SQL compilation error:'' (str_of e)
          then Some (Inr (),
                 st'\<lparr>trace := trace st' @
                    [Log ERROR (''Encountered a SnowparkSQLException: '' @ str_of e)]\<rparr>)
          else Some (Inl e,
                 st'\<lparr>trace := trace st' @
                    [Log ERROR (''Encountered an error: '' @ str_of e)]\<rparr>))"

text \<open>The blobs a trace has written, in order.\<close>

fun uploads :: "'v event list \<Rightarrow> (string \<times> 'v DataFrame) list" where
  "uploads [] = []"
| "uploads (Upload p df # evs) = (p, df) # uploads evs"
| "uploads (ev # evs) = uploads evs"

text \<open>The URLs a trace has requested, in order.\<close>

fun requested :: "'v event list \<Rightarrow> string list" where
  "requested [] = []"
| "requested (Get u # evs) = u # requested evs"
| "requested (ev # evs) = requested evs"

section \<open>Notions of the specification\<close>

text \<open>The number of positions of a string at which \<open>sub\<close> occurs.\<close>

fun occurrences :: "string \<Rightarrow> string \<Rightarrow> nat" where
  "occurrences sub [] = (if sub = [] then 1 else 0)"
| "occurrences sub (c # cs) = (if prefix sub (c # cs) then 1 else 0) + occurrences sub cs"

text \<open>
  The form \<^verbatim>\<open>YYYY-MM-DD HH:MM:SS\<close> of a rendered timestamp: a decimal digit wherever the
  pattern below has a \<open>9\<close>, the pattern's own character elsewhere.
\<close>

definition is_digit :: "char \<Rightarrow> bool" where
  "is_digit c = (c \<in> set ''0123456789'')"

definition timestamp_form :: "string \<Rightarrow> bool" where
  "timestamp_form s =
     list_all2 (\<lambda>p c. if p = CHR ''9'' then is_digit c else c = p) ''9999-99-99 99:99:99'' s"

text \<open>
  A page is a response that is no HTTP error and whose body holds an array of records
  under the record path; \<open>page_records\<close> gives these records.
\<close>

definition page_records :: "string \<Rightarrow> 'v response \<Rightarrow> 'v json_record list option" where
  "page_records record_path r =
     (if 400 \<le> status_code r \<and> status_code r < 600 then None
      else case json r of Inl e \<Rightarrow> None | Inr data \<Rightarrow> map_of data record_path)"

text \<open>
  A sequence of pages of which every one but the last names a next URL in its
  \<^verbatim>\<open>Link\<close> header, and the last names none (as when it has no such header).
\<close>

fun paginated :: "'v response list \<Rightarrow> bool" where
  "paginated [] = False"
| "paginated [p] = (\<not> truthy (next_url (link_header p)))"
| "paginated (p # q # ps) = (truthy (next_url (link_header p)) \<and> paginated (q # ps))"

text \<open>The next URLs that the pages of a sequence name, in order.\<close>

definition links :: "'v response list \<Rightarrow> string list" where
  "links ps = concat (map (\<lambda>p. case next_url (link_header p) of Some u \<Rightarrow> [u] | None \<Rightarrow> []) ps)"

text \<open>All records of a sequence of pages, page after page.\<close>

definition all_records :: "string \<Rightarrow> 'v response list \<Rightarrow> 'v json_record list" where
  "all_records record_path ps =
     concat (map (\<lambda>p. case page_records record_path p of Some recs \<Rightarrow> recs | None \<Rightarrow> []) ps)"

section \<open>An example run\<close>

text \<open>
  Two pages of tickets, the first naming the second in its \<^verbatim>\<open>Link\<close> header, one page
  of ticket fields and one of groups; a warehouse whose \<^verbatim>\<open>TICKETS\<close> table is empty;
  and a warehouse in which that table does not exist. The cell values are numbers.
\<close>

definition example_page1 :: "nat response" where
  "example_page1 =
     \<lparr>status_code = 200, reason = ''OK'',
      link_header = Some (''<https://acme.freshservice.com/api/v2/tickets?page=2>; rel='' @
                          [CHR 0x22] @ ''next'' @ [CHR 0x22]),
      json = Inr [(''tickets'', [[(''id'', 1)], [(''id'', 2)]])]\<rparr>"

definition example_page2 :: "nat response" where
  "example_page2 =
     \<lparr>status_code = 200, reason = ''OK'', link_header = None,
      json = Inr [(''tickets'', [[(''id'', 3), (''custom_fields.team'', 7)], [(''id'', 4)]])]\<rparr>"

definition example_fields_page :: "nat response" where
  "example_fields_page =
     \<lparr>status_code = 200, reason = ''OK'', link_header = None,
      json = Inr [(''ticket_fields'', [[(''name'', 5)]])]\<rparr>"

definition example_groups_page :: "nat response" where
  "example_groups_page =
     \<lparr>status_code = 200, reason = ''OK'', link_header = None,
      json = Inr [(''groups'', [[(''id'', 6)]])]\<rparr>"


text \<open>
  A page whose \<^verbatim>\<open>Link\<close> header is folded: a line feed stands inside its first pair of
  angle brackets.
\<close>

definition example_folded_page :: "nat response" where
  "example_folded_page =
     \<lparr>status_code = 200, reason = ''OK'',
      link_header = Some (''<a'' @ [CHR 0x0A] @ ''b> <https://x/2>''),
      json = Inr [(''tickets'', [[(''id'', 1)]])]\<rparr>"

text \<open>A page whose \<^verbatim>\<open>Link\<close> header has nothing between its angle brackets.\<close>

definition example_blank_link_page :: "nat response" where
  "example_blank_link_page =
     \<lparr>status_code = 200, reason = ''OK'', link_header = Some ''<>; rel=next'',
      json = Inr [(''tickets'', [[(''id'', 1)]])]\<rparr>"

definition example_session :: session where
  "example_session = \<lparr>tickets = Inr [], close_raises = None\<rparr>"

definition example_env :: environment where
  "example_env =
     \<lparr>connection_parameters = (\<lambda>path. Inr [(''account'', ''acme'')]),
      create = (\<lambda>params. Inr example_session),
      api_key_at = (\<lambda>path. Inr ''key''),
      upload_blob = (\<lambda>path. None)\<rparr>"


definition example_network :: "nat http_outcome list" where
  "example_network =
     [Response example_page1, Response example_page2, Response example_fields_page,
      Response example_groups_page]"



definition example_failing_session :: session where
  "example_failing_session =
     \<lparr>tickets = Inl (Exc OtherException
         (''(1304): SQL compilation error: Object '' @ [CHR 0x27] @ ''TICKETS'' @ [CHR 0x27] @
          '' does not exist or not authorized.'')),
      close_raises = None\<rparr>"

definition example_failing_env :: environment where
  "example_failing_env = example_env\<lparr>create := (\<lambda>params. Inr example_failing_session)\<rparr>"

section \<open>Facts about the string operations\<close>

lemma py_in_sublist: "py_in sub s = sublist sub s"
  by (induction s) (auto simp: sublist_Cons_right)

lemma py_replace_absent: "old \<noteq> [] \<Longrightarrow> \<not> py_in old s \<Longrightarrow> py_replace old new s = s"
  by (induction s) auto

lemma py_replace_prefix:
  "old \<noteq> [] \<Longrightarrow> py_replace old new (old @ r) = new @ py_replace old new r"
  by (cases old) auto

lemma py_replace_char:
  "py_replace [x] [y] s = map (\<lambda>c. if c = x then y else c) s"
  by (induction s) auto

lemma length_py_replace_del: "length (py_replace old [] s) \<le> length s"
  by (induction old "[]::string" s rule: py_replace.induct) auto

lemma py_replace_del_shorter:
  "old \<noteq> [] \<Longrightarrow> py_in old s \<Longrightarrow> length (py_replace old [] s) < length s"
proof (induction s)
  case Nil
  then show ?case by simp
next
  case (Cons c cs)
  show ?case
  proof (cases "prefix old (c # cs)")
    case True
    have "length (py_replace old [] (drop (length old) (c # cs)))
            \<le> length (drop (length old) (c # cs))"
      by (rule length_py_replace_del)
    with True Cons.prems(1) show ?thesis by (cases old) auto
  next
    case False
    with Cons show ?thesis by auto
  qed
qed

lemma set_py_replace_del: "set (py_replace old [] s) \<subseteq> set s"
proof (induction old "[]::string" s rule: py_replace.induct)
  case (1 old)
  then show ?case by simp
next
  case (2 old c cs)
  then show ?case
    using set_drop_subset[of "length old" "c # cs"] by (auto split: if_splits)
qed

text \<open>
  Deleting a pattern whose occurrences cannot overlap shortens the string by the
  length of the pattern for each occurrence.
\<close>

lemma count_removed_gen:
  assumes ne: "old \<noteq> []"
    and occ: "\<And>r. occurrences old (old @ r) = Suc (occurrences old r)"
  shows "length (py_replace old [] s) + length old * occurrences old s = length s"
proof (induction s rule: length_induct)
  case (1 s)
  show ?case
  proof (cases s)
    case Nil
    with ne show ?thesis by simp
  next
    case (Cons c cs)
    show ?thesis
    proof (cases "prefix old s")
      case True
      then obtain r where r: "s = old @ r" by (auto simp: prefix_def)
      with ne have "length r < length s" by simp
      with 1 have "length (py_replace old [] r) + length old * occurrences old r = length r"
        by blast
      then show ?thesis unfolding r by (simp add: py_replace_prefix[OF ne] occ)
    next
      case False
      from Cons have "length cs < length s" by simp
      with 1 have "length (py_replace old [] cs) + length old * occurrences old cs = length cs"
        by blast
      with False ne show ?thesis unfolding Cons by simp
    qed
  qed
qed

lemma strip_decomp_gen:
  assumes ns: "\<And>a b. a \<noteq> [] \<Longrightarrow> prefix old (a @ old @ b) \<Longrightarrow> prefix old a"
    and ne: "old \<noteq> []"
  shows "\<not> py_in old a \<Longrightarrow> py_replace old new (a @ old @ b) = a @ new @ py_replace old new b"
proof (induction a)
  case Nil
  then show ?case by (simp add: py_replace_prefix[OF ne])
next
  case (Cons c a)
  from Cons.prems have np: "\<not> prefix old (c # a)" and ni: "\<not> py_in old a" by auto
  have "\<not> prefix old ((c # a) @ old @ b)" using ns[of "c # a" b] np by blast
  then have "py_replace old new ((c # a) @ old @ b) = c # py_replace old new (a @ old @ b)"
    using ne by simp
  with Cons.IH[OF ni] show ?case by simp
qed

lemma prefix_append_short:
  "prefix xs (ys @ zs) \<Longrightarrow> length xs \<le> length ys \<Longrightarrow> prefix xs ys"
  by (auto simp: prefix_append)

subsection \<open>The pattern \<^verbatim>\<open>CUSTOM_FIELDS.\<close>\<close>

text \<open>The full stop is the last character of the pattern and occurs nowhere else in it,
  so two occurrences never overlap.\<close>

lemma occurrences_custom_fields:
  "occurrences ''CUSTOM_FIELDS.'' (''CUSTOM_FIELDS.'' @ r) = Suc (occurrences ''CUSTOM_FIELDS.'' r)"
  by simp

lemma count_removed:
  "length (py_replace ''CUSTOM_FIELDS.'' [] s) + 14 * occurrences ''CUSTOM_FIELDS.'' s = length s"
  using count_removed_gen[of "''CUSTOM_FIELDS.''" s, OF _ occurrences_custom_fields] by simp

lemma no_straddle:
  assumes "prefix ''CUSTOM_FIELDS.'' (a @ ''CUSTOM_FIELDS.'' @ b)" "a \<noteq> []"
  shows "prefix ''CUSTOM_FIELDS.'' a"
proof (cases "14 \<le> length a")
  case True
  then have "length ''CUSTOM_FIELDS.'' \<le> length a" by simp
  with assms(1) show ?thesis by (rule prefix_append_short)
next
  case False
  define P where "P = ''CUSTOM_FIELDS.''"
  have lenP: "length P = 14" by (simp add: P_def)
  from assms(1) obtain z where z: "a @ P @ b = P @ z" unfolding P_def prefix_def by metis
  have "(a @ P @ b) ! 13 = (P @ z) ! 13" using z by simp
  moreover have "(P @ z) ! 13 = CHR ''.''" by (simp add: nth_append P_def)
  moreover have "(a @ P @ b) ! 13 = P ! (13 - length a)"
    using False lenP by (auto simp: nth_append)
  ultimately have "P ! (13 - length a) = CHR ''.''" by simp
  moreover have "13 - length a < 13" using assms(2) False by (cases a) auto
  moreover have "P ! j \<noteq> CHR ''.''" if "j < 13" for j
  proof -
    have "take 13 P ! j \<in> set (take 13 P)" using that lenP by (intro nth_mem) simp
    moreover have "take 13 P ! j = P ! j" using that by simp
    moreover have "CHR ''.'' \<notin> set (take 13 P)" by (simp add: P_def)
    ultimately show ?thesis by metis
  qed
  ultimately show ?thesis by blast
qed

lemma strip_decomp:
  "\<not> py_in ''CUSTOM_FIELDS.'' a \<Longrightarrow>
   py_replace ''CUSTOM_FIELDS.'' [] (a @ ''CUSTOM_FIELDS.'' @ b) =
     a @ py_replace ''CUSTOM_FIELDS.'' [] b"
  using strip_decomp_gen[of "''CUSTOM_FIELDS.''" a "[]" b] no_straddle
  by (metis append_Nil list.distinct(1))

lemma map_of_rename_cols:
  "map_of (rename_cols df) c =
     (if c \<in> set (columns df) \<and> py_in ''CUSTOM_FIELDS.'' c
      then Some (py_replace ''CUSTOM_FIELDS.'' [] c) else None)"
  unfolding rename_cols_def
  by (induction "columns df" arbitrary: df) (auto simp: map_of_map_restrict restrict_map_def)

lemma columns_rename_ticket_columns:
  "columns (rename_ticket_columns df) = map (py_replace ''CUSTOM_FIELDS.'' []) (columns df)"
  by (simp add: rename_ticket_columns_def rename_columns_def map_of_rename_cols py_replace_absent)

lemma rows_rename_ticket_columns: "rows (rename_ticket_columns df) = rows df"
  by (simp add: rename_ticket_columns_def rename_columns_def)

lemma map_fixes: "map f xs = xs \<Longrightarrow> x \<in> set xs \<Longrightarrow> f x = x"
  by (induction xs) auto

lemma rename_ticket_columns_fixed:
  "(rename_ticket_columns r = r) = (\<forall>c \<in> set (columns r). \<not> py_in ''CUSTOM_FIELDS.'' c)"
proof
  assume eq: "rename_ticket_columns r = r"
  have "map (py_replace ''CUSTOM_FIELDS.'' []) (columns r) = columns r"
    using arg_cong[OF eq, of columns] by (simp only: columns_rename_ticket_columns)
  then have fixd: "py_replace ''CUSTOM_FIELDS.'' [] c = c" if "c \<in> set (columns r)" for c
    using that by (rule map_fixes)
  show "\<forall>c \<in> set (columns r). \<not> py_in ''CUSTOM_FIELDS.'' c"
  proof
    fix c assume c: "c \<in> set (columns r)"
    have "length (py_replace ''CUSTOM_FIELDS.'' [] c) = length c" using fixd[OF c] by (rule arg_cong)
    moreover have "py_in ''CUSTOM_FIELDS.'' c \<Longrightarrow>
        length (py_replace ''CUSTOM_FIELDS.'' [] c) < length c"
      by (rule py_replace_del_shorter) simp
    ultimately show "\<not> py_in ''CUSTOM_FIELDS.'' c" by linarith
  qed
next
  assume free: "\<forall>c \<in> set (columns r). \<not> py_in ''CUSTOM_FIELDS.'' c"
  have "py_replace ''CUSTOM_FIELDS.'' [] c = c" if "c \<in> set (columns r)" for c
    by (rule py_replace_absent) (use free that in auto)
  then have "map (py_replace ''CUSTOM_FIELDS.'' []) (columns r) = columns r"
    by (rule map_idI)
  then have c: "columns (rename_ticket_columns r) = columns r"
    by (simp only: columns_rename_ticket_columns)
  have "rows (rename_ticket_columns r) = rows r"
    by (rule rows_rename_ticket_columns)
  with c show "rename_ticket_columns r = r"
    by (intro DataFrame.equality) simp_all
qed


lemma space_not_digit [simp]: "\<not> is_digit (CHR '' '')"
  by (simp add: is_digit_def)

lemma timestamp_form_replace:
  assumes "timestamp_form s"
  shows "py_replace '' '' ''T'' s = take 10 s @ ''T'' @ drop 11 s"
  using assms unfolding timestamp_form_def py_replace_char
  by (auto simp: list_all2_Cons1)

text \<open>Every text of the form \<^verbatim>\<open>YYYY-MM-DD HH:MM:SS\<close> is the rendering of a timestamp.\<close>

lemma show_nat_digit: "d < 10 \<Longrightarrow> show_nat d = [digit_char d]"
  by (simp add: show_nat.simps)

lemma show_nat_snoc: "0 < n \<Longrightarrow> d < 10 \<Longrightarrow> show_nat (10 * n + d) = show_nat n @ [digit_char d]"
  by (subst show_nat.simps) simp

lemma digit_char_0: "digit_char 0 = CHR ''0''"
  by (simp add: digit_char_def)

lemma replicate_small:
  "replicate (Suc 0) x = [x]" "replicate 2 x = [x, x]" "replicate 3 x = [x, x, x]"
  by (simp_all add: numeral_eq_Suc)

lemma zero_pad_2:
  assumes "a < 10" "b < 10"
  shows "zero_pad 2 (10 * a + b) = [digit_char a, digit_char b]"
proof (cases "a = 0")
  case True
  with assms show ?thesis by (simp add: zero_pad_def show_nat_digit digit_char_0)
next
  case False
  with assms show ?thesis by (simp add: zero_pad_def show_nat_snoc show_nat_digit)
qed

lemma zero_pad_4:
  assumes "a < 10" "b < 10" "c < 10" "d < 10"
  shows "zero_pad 4 (10 * (10 * (10 * a + b) + c) + d) =
           [digit_char a, digit_char b, digit_char c, digit_char d]"
proof -
  consider "a = 0" "b = 0" "c = 0" | "a = 0" "b = 0" "0 < c" | "a = 0" "0 < b" | "0 < a"
    by auto
  then show ?thesis
  proof cases
    case 1
    then have "show_nat (10 * (10 * (10 * a + b) + c) + d) = [digit_char d]"
      using assms by (simp add: show_nat_digit)
    with 1 show ?thesis by (simp add: zero_pad_def replicate_small digit_char_0)
  next
    case 2
    then have "show_nat (10 * (10 * (10 * a + b) + c) + d) = [digit_char c, digit_char d]"
      using assms by (simp add: show_nat_snoc show_nat_digit)
    with 2 show ?thesis by (simp add: zero_pad_def replicate_small digit_char_0)
  next
    case 3
    then have "show_nat (10 * b + c) = [digit_char b, digit_char c]"
      using assms by (simp add: show_nat_snoc show_nat_digit)
    moreover have "0 < 10 * b + c" using 3 by simp
    ultimately have "show_nat (10 * (10 * b + c) + d) = [digit_char b, digit_char c, digit_char d]"
      using assms by (simp only: show_nat_snoc) simp
    with 3 show ?thesis by (simp add: zero_pad_def replicate_small digit_char_0)
  next
    case 4
    then have "show_nat (10 * a + b) = [digit_char a, digit_char b]"
      using assms by (simp add: show_nat_snoc show_nat_digit)
    moreover have "0 < 10 * a + b" using 4 by simp
    ultimately have "show_nat (10 * (10 * a + b) + c) = [digit_char a, digit_char b, digit_char c]"
      using assms by (simp only: show_nat_snoc) simp
    moreover have "0 < 10 * (10 * a + b) + c" using 4 by simp
    ultimately have "show_nat (10 * (10 * (10 * a + b) + c) + d) =
        [digit_char a, digit_char b, digit_char c, digit_char d]"
      using assms by (simp only: show_nat_snoc) simp
    then show ?thesis by (simp add: zero_pad_def)
  qed
qed

lemma is_digit_value: "is_digit c \<Longrightarrow> \<exists>d<10. c = digit_char d"
proof -
  assume "is_digit c"
  then consider "c = CHR ''0''" | "c = CHR ''1''" | "c = CHR ''2''" | "c = CHR ''3''"
    | "c = CHR ''4''" | "c = CHR ''5''" | "c = CHR ''6''" | "c = CHR ''7''"
    | "c = CHR ''8''" | "c = CHR ''9''"
    by (auto simp: is_digit_def)
  then show ?thesis
  proof cases
    case 1 then show ?thesis by (intro exI[of _ 0]) (simp add: digit_char_def)
  next
    case 2 then show ?thesis by (intro exI[of _ 1]) (simp add: digit_char_def)
  next
    case 3 then show ?thesis by (intro exI[of _ 2]) (simp add: digit_char_def)
  next
    case 4 then show ?thesis by (intro exI[of _ 3]) (simp add: digit_char_def)
  next
    case 5 then show ?thesis by (intro exI[of _ 4]) (simp add: digit_char_def)
  next
    case 6 then show ?thesis by (intro exI[of _ 5]) (simp add: digit_char_def)
  next
    case 7 then show ?thesis by (intro exI[of _ 6]) (simp add: digit_char_def)
  next
    case 8 then show ?thesis by (intro exI[of _ 7]) (simp add: digit_char_def)
  next
    case 9 then show ?thesis by (intro exI[of _ 8]) (simp add: digit_char_def)
  next
    case 10 then show ?thesis by (intro exI[of _ 9]) (simp add: digit_char_def)
  qed
qed

lemma two_digits: "is_digit a \<Longrightarrow> is_digit b \<Longrightarrow> \<exists>n. zero_pad 2 n = [a, b]"
  using zero_pad_2 by (metis is_digit_value)

lemma four_digits:
  "is_digit a \<Longrightarrow> is_digit b \<Longrightarrow> is_digit c \<Longrightarrow> is_digit d \<Longrightarrow> \<exists>n. zero_pad 4 n = [a, b, c, d]"
  using zero_pad_4 by (metis is_digit_value)

lemma timestamp_form_rendered:
  assumes "timestamp_form s"
  shows "\<exists>t. str_timestamp t = s"
proof -
  from assms obtain y1 y2 y3 y4 m1 m2 d1 d2 h1 h2 n1 n2 s1 s2 where
    s: "s = [y1, y2, y3, y4] @ ''-'' @ [m1, m2] @ ''-'' @ [d1, d2] @ '' '' @
            [h1, h2] @ '':'' @ [n1, n2] @ '':'' @ [s1, s2]"
    and dg: "is_digit y1" "is_digit y2" "is_digit y3" "is_digit y4" "is_digit m1" "is_digit m2"
      "is_digit d1" "is_digit d2" "is_digit h1" "is_digit h2" "is_digit n1" "is_digit n2"
      "is_digit s1" "is_digit s2"
    unfolding timestamp_form_def by (auto simp: list_all2_Cons1)
  from dg obtain y mo d h mi se where
    "zero_pad 4 y = [y1, y2, y3, y4]" "zero_pad 2 mo = [m1, m2]" "zero_pad 2 d = [d1, d2]"
    "zero_pad 2 h = [h1, h2]" "zero_pad 2 mi = [n1, n2]" "zero_pad 2 se = [s1, s2]"
    using four_digits two_digits by metis
  then have "str_timestamp \<lparr>year = y, month = mo, day = d, hour = h, minute = mi, second = se\<rparr> = s"
    unfolding s str_timestamp_def by simp
  then show ?thesis by blast
qed

lemma default_watermark:
  "TO_TIMESTAMP ''2001-04-16T00:00:00Z'' =
     \<lparr>year = 2001, month = 4, day = 16, hour = 0, minute = 0, second = 0\<rparr>"
  by (simp add: TO_TIMESTAMP_def nat_of_digits_def digit_val_def)

lemma str_default_watermark:
  "str_timestamp (TO_TIMESTAMP ''2001-04-16T00:00:00Z'') = ''2001-04-16 00:00:00''"
  by (simp add: default_watermark str_timestamp_def zero_pad_def digit_char_def show_nat.simps)

text \<open>
  Were the text of the SQL default to reach Python unchanged, as a string and not as a
  timestamp, line 82 would put a second \<open>Z\<close> behind it.
\<close>

lemma format_of_literal_default:
  "py_replace '' '' ''T'' ''2001-04-16T00:00:00Z'' @ ''Z'' = ''2001-04-16T00:00:00ZZ''"
  by simp

section \<open>The watermark reader: claims\<close>

text \<open>
  C1. When the \<^verbatim>\<open>TICKETS\<close> table is empty, or more generally when the aggregate of
  the query is NULL so that the default of \<^verbatim>\<open>IFNULL\<close> is used,
  \<^verbatim>\<open>get_updated_timestamp\<close> returns exactly \<^verbatim>\<open>2001-04-16T00:00:00Z\<close>.
\<close>

theorem get_updated_timestamp_default:
  "tickets session = Inr tbl \<Longrightarrow>
   MAX_sql (map (\<lambda>r. COALESCE (UPDATED_AT r) (CREATED_AT r)) tbl) = None \<Longrightarrow>
   get_updated_timestamp session = Inr ''2001-04-16T00:00:00Z''"
  by (simp add: get_updated_timestamp_def watermark_query_def IFNULL_def str_default_watermark)

theorem get_updated_timestamp_default_witness:
  "tickets \<lparr>tickets = Inr [], close_raises = None\<rparr> = Inr []
   \<and> MAX_sql (map (\<lambda>r. COALESCE (UPDATED_AT r) (CREATED_AT r)) []) = None
   \<and> get_updated_timestamp \<lparr>tickets = Inr [], close_raises = None\<rparr> = Inr ''2001-04-16T00:00:00Z''"
  using get_updated_timestamp_default[of "\<lparr>tickets = Inr [], close_raises = None\<rparr>" "[]"]
  by (simp add: MAX_sql_def)

text \<open>
  C7. When the value of the watermark query renders in the form
  \<^verbatim>\<open>YYYY-MM-DD HH:MM:SS\<close>, \<^verbatim>\<open>get_updated_timestamp\<close> returns that text with the
  space between date and time replaced by \<open>T\<close> and with \<open>Z\<close> appended. By
  \<open>timestamp_form_rendered\<close> every text of that form is such a value.
\<close>

theorem get_updated_timestamp_format:
  "tickets session = Inr tbl \<Longrightarrow>
   timestamp_form (str_timestamp (watermark_query tbl)) \<Longrightarrow>
   get_updated_timestamp session =
     Inr (take 10 (str_timestamp (watermark_query tbl)) @ ''T'' @
          drop 11 (str_timestamp (watermark_query tbl)) @ ''Z'')"
  by (simp add: get_updated_timestamp_def timestamp_form_replace)

theorem get_updated_timestamp_format_witness:
  "timestamp_form ''2023-08-25 00:58:35''
   \<and> get_updated_timestamp
       \<lparr>tickets = Inr [\<lparr>UPDATED_AT = Some \<lparr>year = 2023, month = 8, day = 25,
                                          hour = 0, minute = 58, second = 35\<rparr>,
                        CREATED_AT = None\<rparr>],
        close_raises = None\<rparr>
     = Inr ''2023-08-25T00:58:35Z''"
proof -
  let ?tbl = "[\<lparr>UPDATED_AT = Some \<lparr>year = 2023, month = 8, day = 25,
                                  hour = 0, minute = 58, second = 35\<rparr>,
                CREATED_AT = None\<rparr>]"
  let ?session = "\<lparr>tickets = Inr ?tbl, close_raises = None\<rparr>"
  have s: "str_timestamp (watermark_query ?tbl) = ''2023-08-25 00:58:35''"
    by (simp add: watermark_query_def MAX_sql_def COALESCE_def greater_of_def IFNULL_def
        str_timestamp_def zero_pad_def digit_char_def show_nat.simps)
  have f: "timestamp_form ''2023-08-25 00:58:35''"
    by (simp add: timestamp_form_def is_digit_def)
  have t: "tickets ?session = Inr ?tbl" by simp
  have "get_updated_timestamp ?session = Inr ''2023-08-25T00:58:35Z''"
    using get_updated_timestamp_format[of ?session ?tbl, OF t] f unfolding s by simp
  with f show ?thesis by (rule conjI)
qed

section \<open>The rename of the ticket columns: claims\<close>

text \<open>
  C6, as amended. The rename maps each column name containing \<^verbatim>\<open>CUSTOM_FIELDS.\<close> to
  that name with the occurrences of \<^verbatim>\<open>CUSTOM_FIELDS.\<close> removed, leaves every other
  column name and all rows unchanged, and applying it a second time changes nothing
  exactly when no column name of the once-renamed table still contains
  \<^verbatim>\<open>CUSTOM_FIELDS.\<close>.
\<close>

theorem rename_ticket_columns_effect:
  "columns (rename_ticket_columns df) =
     map (\<lambda>c. if py_in ''CUSTOM_FIELDS.'' c then py_replace ''CUSTOM_FIELDS.'' [] c else c)
       (columns df)
   \<and> rows (rename_ticket_columns df) = rows df
   \<and> ((rename_ticket_columns (rename_ticket_columns df) = rename_ticket_columns df) =
        (\<forall>c \<in> set (columns (rename_ticket_columns df)). \<not> py_in ''CUSTOM_FIELDS.'' c))"
proof (intro conjI)
  have "py_replace ''CUSTOM_FIELDS.'' [] c =
          (if py_in ''CUSTOM_FIELDS.'' c then py_replace ''CUSTOM_FIELDS.'' [] c else c)" for c
    using py_replace_absent[of "''CUSTOM_FIELDS.''" c "[]"] by (cases "py_in ''CUSTOM_FIELDS.'' c") simp_all
  then show "columns (rename_ticket_columns df) =
     map (\<lambda>c. if py_in ''CUSTOM_FIELDS.'' c then py_replace ''CUSTOM_FIELDS.'' [] c else c)
       (columns df)"
    unfolding columns_rename_ticket_columns by (intro map_cong refl)
  show "rows (rename_ticket_columns df) = rows df"
    by (rule rows_rename_ticket_columns)
  show "(rename_ticket_columns (rename_ticket_columns df) = rename_ticket_columns df) =
        (\<forall>c \<in> set (columns (rename_ticket_columns df)). \<not> py_in ''CUSTOM_FIELDS.'' c)"
    by (rule rename_ticket_columns_fixed)
qed

theorem rename_ticket_columns_effect_witness:
  "columns (rename_ticket_columns \<lparr>columns = [''CUSTOM_FIELDS.A'', ''ID''], rows = [[Some (1::nat), Some 2]]\<rparr>)
     = [''A'', ''ID'']
   \<and> rename_ticket_columns (rename_ticket_columns \<lparr>columns = [''CUSTOM_FIELDS.A'', ''ID''], rows = [[Some (1::nat), Some 2]]\<rparr>)
     = rename_ticket_columns \<lparr>columns = [''CUSTOM_FIELDS.A'', ''ID''], rows = [[Some (1::nat), Some 2]]\<rparr>"
proof -
  let ?df = "\<lparr>columns = [''CUSTOM_FIELDS.A'', ''ID''], rows = [[Some (1::nat), Some 2]]\<rparr>"
  note t = rename_ticket_columns_effect[of ?df]
  have c: "columns (rename_ticket_columns ?df) = [''A'', ''ID'']"
    using t[THEN conjunct1] by simp
  have "\<forall>c \<in> set (columns (rename_ticket_columns ?df)). \<not> py_in ''CUSTOM_FIELDS.'' c"
    unfolding c by simp
  then have "rename_ticket_columns (rename_ticket_columns ?df) = rename_ticket_columns ?df"
    using t[THEN conjunct2, THEN conjunct2] by (rule iffD2[rotated])
  with c show ?thesis by (rule conjI)
qed

text \<open>
  C6 as stated fails: the rename is not idempotent on every table. Removing the
  occurrence inside \<^verbatim>\<open>CUSTOM_CUSTOM_FIELDS.FIELDS.X\<close> leaves \<^verbatim>\<open>CUSTOM_FIELDS.X\<close>, which a
  second rename turns into \<^verbatim>\<open>X\<close>.
\<close>

theorem rename_twice_counterexample:
  "rename_ticket_columns
     (rename_ticket_columns
        \<lparr>columns = [''CUSTOM_CUSTOM_FIELDS.FIELDS.X''], rows = [[Some (1::nat)]]\<rparr>)
   \<noteq> rename_ticket_columns
        \<lparr>columns = [''CUSTOM_CUSTOM_FIELDS.FIELDS.X''], rows = [[Some (1::nat)]]\<rparr>"
  by (simp add: rename_ticket_columns_def rename_columns_def rename_cols_def)

text \<open>
  C10. The rename removes every occurrence of \<^verbatim>\<open>CUSTOM_FIELDS.\<close> anywhere in a column
  name, not only a leading one: behind any text free of the pattern the occurrence is
  dropped and the removal goes on in the rest; the renamed name is shorter by fourteen
  characters for each occurrence; and \<^verbatim>\<open>A.CUSTOM_FIELDS.B\<close> becomes \<^verbatim>\<open>A.B\<close>.
\<close>

theorem rename_removes_every_occurrence:
  "(\<forall>i < length (columns df). \<forall>a b.
       columns df ! i = a @ ''CUSTOM_FIELDS.'' @ b \<and> \<not> py_in ''CUSTOM_FIELDS.'' a \<longrightarrow>
       columns (rename_ticket_columns df) ! i = a @ py_replace ''CUSTOM_FIELDS.'' [] b)
   \<and> (\<forall>i < length (columns df).
       length (columns (rename_ticket_columns df) ! i)
         + 14 * occurrences ''CUSTOM_FIELDS.'' (columns df ! i)
       = length (columns df ! i))
   \<and> columns (rename_ticket_columns \<lparr>columns = [''A.CUSTOM_FIELDS.B''], rows = rs\<rparr>) = [''A.B'']"
proof (intro conjI allI impI)
  fix i a b
  assume i: "i < length (columns df)"
    and "columns df ! i = a @ ''CUSTOM_FIELDS.'' @ b \<and> \<not> py_in ''CUSTOM_FIELDS.'' a"
  then have eq: "columns df ! i = a @ ''CUSTOM_FIELDS.'' @ b"
    and free: "\<not> py_in ''CUSTOM_FIELDS.'' a" by blast+
  have "columns (rename_ticket_columns df) ! i = py_replace ''CUSTOM_FIELDS.'' [] (columns df ! i)"
    using i by (simp only: columns_rename_ticket_columns nth_map)
  also have "\<dots> = a @ py_replace ''CUSTOM_FIELDS.'' [] b"
    unfolding eq using free by (rule strip_decomp)
  finally show "columns (rename_ticket_columns df) ! i = a @ py_replace ''CUSTOM_FIELDS.'' [] b" .
next
  fix i
  assume i: "i < length (columns df)"
  have "columns (rename_ticket_columns df) ! i = py_replace ''CUSTOM_FIELDS.'' [] (columns df ! i)"
    using i by (simp only: columns_rename_ticket_columns nth_map)
  then show "length (columns (rename_ticket_columns df) ! i)
         + 14 * occurrences ''CUSTOM_FIELDS.'' (columns df ! i)
       = length (columns df ! i)"
    by (simp only: count_removed)
next
  show "columns (rename_ticket_columns \<lparr>columns = [''A.CUSTOM_FIELDS.B''], rows = rs\<rparr>) = [''A.B'']"
    by (simp add: columns_rename_ticket_columns)
qed

theorem rename_removes_every_occurrence_witness:
  "columns (rename_ticket_columns
      \<lparr>columns = [''A.CUSTOM_FIELDS.B.CUSTOM_FIELDS.C''], rows = [[Some (1::nat)]]\<rparr>) ! 0 = ''A.B.C''
   \<and> occurrences ''CUSTOM_FIELDS.'' ''A.CUSTOM_FIELDS.B.CUSTOM_FIELDS.C'' = 2"
proof -
  let ?df = "\<lparr>columns = [''A.CUSTOM_FIELDS.B.CUSTOM_FIELDS.C''], rows = [[Some (1::nat)]]\<rparr>"
  have i: "0 < length (columns ?df)" by simp
  have d: "columns ?df ! 0 = ''A.'' @ ''CUSTOM_FIELDS.'' @ ''B.CUSTOM_FIELDS.C''" by simp
  have f: "\<not> py_in ''CUSTOM_FIELDS.'' ''A.''" by simp
  have "columns (rename_ticket_columns ?df) ! 0
          = ''A.'' @ py_replace ''CUSTOM_FIELDS.'' [] ''B.CUSTOM_FIELDS.C''"
    using rename_removes_every_occurrence[of ?df "[[Some 1]]", THEN conjunct1, rule_format, OF i conjI, OF d f] .
  moreover have "py_replace ''CUSTOM_FIELDS.'' [] ''B.CUSTOM_FIELDS.C'' = ''B.C''" by simp
  moreover have "occurrences ''CUSTOM_FIELDS.'' ''A.CUSTOM_FIELDS.B.CUSTOM_FIELDS.C'' = 2" by simp
  ultimately show ?thesis by simp
qed

section \<open>Facts about tables\<close>

lemma set_ordered_union [simp]: "set (ordered_union xs) = set xs"
  by (simp add: ordered_union_def)

lemma map_of_zip_map:
  "map_of (zip xs (map f xs)) c = (if c \<in> set xs then Some (f c) else None)"
  by (induction xs) auto

lemma cell_at_row_of:
  assumes "fst ` set r \<subseteq> set cf"
  shows "cell_at cf (row_of cf r) c = map_of r c"
proof (cases "c \<in> set cf")
  case True
  then show ?thesis by (simp add: cell_at_def row_of_def map_of_zip_map)
next
  case False
  with assms have "c \<notin> fst ` set r" by blast
  then have "map_of r c = None" by (simp add: map_of_eq_None_iff)
  with False show ?thesis by (simp add: cell_at_def row_of_def map_of_zip_map)
qed

lemma realign_frame_of_records:
  "map (\<lambda>r. map (cell_at (columns (frame_of_records rs)) r) cols) (rows (frame_of_records rs))
     = map (row_of cols) rs"
proof -
  have "fst ` set r \<subseteq> set (columns (frame_of_records rs))" if "r \<in> set rs" for r
    using that by (auto simp: frame_of_records_def Let_def)
  then show ?thesis
    by (auto simp: frame_of_records_def Let_def cell_at_row_of row_of_def[of cols])
qed

lemma rows_pd_concat_frames:
  "rows (pd_concat (map frame_of_records rss)) =
     map (row_of (columns (pd_concat (map frame_of_records rss)))) (concat rss)"
  by (simp add: pd_concat_def Let_def comp_def realign_frame_of_records map_concat)

lemma columns_pd_concat_frames:
  "set (columns (pd_concat (map frame_of_records rss))) = fst ` set (concat (concat rss))"
  by (auto simp: pd_concat_def Let_def frame_of_records_def)

lemma length_concat_const:
  "\<forall>xs \<in> set xss. length xs = K \<Longrightarrow> length (concat xss) = length xss * K"
  by (induction xss) auto

lemma length_links_butlast:
  "paginated ps \<Longrightarrow> length (links (butlast ps)) = length ps - 1"
  by (induction ps rule: paginated.induct) (auto simp: links_def truthy_def split: option.splits)

lemma distinct_columns_pd_concat: "distinct (columns (pd_concat frames))"
  by (simp add: pd_concat_def Let_def ordered_union_def)

lemma columns_pd_concat_labelled:
  "concat (concat rss) \<noteq> [] \<Longrightarrow> columns (pd_concat (map frame_of_records rss)) \<noteq> []"
  using columns_pd_concat_frames[of rss] by (metis image_is_empty set_empty)

lemma columns_pd_concat_unlabelled:
  assumes "concat (concat rss) = []"
  shows "columns (pd_concat (map frame_of_records rss)) = []"
proof -
  have "set (columns (pd_concat (map frame_of_records rss))) = {}"
    unfolding columns_pd_concat_frames assms by simp
  then show ?thesis by simp
qed

section \<open>Facts about the fetcher\<close>

lemma fetch_loop_exit:
  "\<not> truthy (url lv) \<Longrightarrow> fetch_loop rp lv net tr = Some (Inr lv, net, tr)"
  by (cases net; cases "url lv") (auto simp: truthy_def)

lemma raise_for_status_None:
  "\<not> (400 \<le> status_code r \<and> status_code r < 600) \<Longrightarrow> raise_for_status r u = None"
  by (auto simp: raise_for_status_def)

lemma try_body_page:
  assumes "page_records rp r = Some recs"
  shows "try_body rp u (Response r) lv =
     Inr \<lparr>url = next_url (link_header r), all_data = all_data lv @ [frame_of_records recs],
          response = Some r\<rparr>"
  using assms
  by (auto simp: page_records_def try_body_def raise_for_status_None json_normalize_def Let_def
      split: if_splits sum.splits)

lemma fetch_iteration_page:
  assumes "page_records rp r = Some recs"
  shows "fetch_iteration rp u (Response r) lv =
     (Continue \<lparr>url = next_url (link_header r), all_data = all_data lv @ [frame_of_records recs],
          response = Some r\<rparr>, [])"
  by (simp add: fetch_iteration_def try_body_page[OF assms])

lemma fetch_loop_page:
  assumes "page_records rp r = Some recs" "u \<noteq> []"
  shows "fetch_loop rp \<lparr>url = Some u, all_data = acc, response = r0\<rparr> (Response r # net) tr =
     fetch_loop rp \<lparr>url = next_url (link_header r), all_data = acc @ [frame_of_records recs],
          response = Some r\<rparr> net (tr @ [Get u])"
  using assms(2) by (simp add: fetch_iteration_page[OF assms(1)])

lemma fetch_loop_pages:
  assumes "paginated pages" "\<forall>p \<in> set pages. page_records rp p \<noteq> None" "u \<noteq> []"
  shows "fetch_loop rp \<lparr>url = Some u, all_data = acc, response = r0\<rparr>
           (map Response pages @ rest) tr =
         Some (Inr \<lparr>url = next_url (link_header (last pages)),
                    all_data = acc @ map (\<lambda>p. frame_of_records
                       (case page_records rp p of Some recs \<Rightarrow> recs | None \<Rightarrow> [])) pages,
                    response = Some (last pages)\<rparr>,
               rest, tr @ map Get (u # links (butlast pages)))"
  using assms
proof (induction pages arbitrary: u acc r0 tr rule: paginated.induct)
  case 1
  then show ?case by simp
next
  case (2 p)
  then obtain recs where recs: "page_records rp p = Some recs" by auto
  show ?case
    using 2 by (simp del: fetch_loop.simps add: fetch_loop_page[OF recs] fetch_loop_exit recs links_def)
next
  case (3 p q ps)
  then obtain recs where recs: "page_records rp p = Some recs" by auto
  from 3(2) obtain v where v: "next_url (link_header p) = Some v" "v \<noteq> []"
    by (auto simp: truthy_def split: option.splits)
  have "fetch_loop rp \<lparr>url = Some u, all_data = acc, response = r0\<rparr>
           (map Response (p # q # ps) @ rest) tr =
        fetch_loop rp \<lparr>url = Some v, all_data = acc @ [frame_of_records recs], response = Some p\<rparr>
           (map Response (q # ps) @ rest) (tr @ [Get u])"
    using fetch_loop_page[OF recs \<open>u \<noteq> []\<close>] v by (simp del: fetch_loop.simps)
  also have "\<dots> = Some (Inr \<lparr>url = next_url (link_header (last (q # ps))),
                    all_data = (acc @ [frame_of_records recs]) @ map (\<lambda>p. frame_of_records
                       (case page_records rp p of Some recs \<Rightarrow> recs | None \<Rightarrow> [])) (q # ps),
                    response = Some (last (q # ps))\<rparr>,
               rest, (tr @ [Get u]) @ map Get (v # links (butlast (q # ps))))"
    using 3 v by (intro "3.IH") auto
  finally show ?case using v recs by (simp add: links_def)
qed

lemma lazy_group_append:
  "CHR ''>'' \<notin> set g \<Longrightarrow> CHR 0x0A \<notin> set g \<Longrightarrow> lazy_group (g @ CHR ''>'' # post) = Some g"
  by (induction g) auto

lemma lazy_group_line_feed:
  "CHR ''>'' \<notin> set a \<Longrightarrow> lazy_group (a @ CHR 0x0A # b) = None"
  by (induction a) auto

lemma re_search_group_skip:
  assumes "\<forall>p s. pre = p @ CHR ''<'' # s \<longrightarrow> (\<exists>a b. s = a @ CHR 0x0A # b \<and> CHR ''>'' \<notin> set a)"
  shows "re_search_group (pre @ rest) = re_search_group rest"
  using assms
proof (induction pre)
  case Nil
  then show ?case by simp
next
  case (Cons c cs)
  have tl: "\<forall>p s. cs = p @ CHR ''<'' # s \<longrightarrow> (\<exists>a b. s = a @ CHR 0x0A # b \<and> CHR ''>'' \<notin> set a)"
  proof (intro allI impI)
    fix p s
    assume "cs = p @ CHR ''<'' # s"
    then have "c # cs = (c # p) @ CHR ''<'' # s" by simp
    with Cons.prems show "\<exists>a b. s = a @ CHR 0x0A # b \<and> CHR ''>'' \<notin> set a" by blast
  qed
  note ih = Cons.IH[OF tl]
  show ?case
  proof (cases "c = CHR ''<''")
    case True
    then have "c # cs = [] @ CHR ''<'' # cs" by simp
    with Cons.prems obtain a b where ab: "cs = a @ CHR 0x0A # b" "CHR ''>'' \<notin> set a" by blast
    have "lazy_group (cs @ rest) = None"
      using lazy_group_line_feed[OF ab(2), of "b @ rest"] ab(1) by simp
    with True ih show ?thesis by simp
  next
    case False
    with ih show ?thesis by simp
  qed
qed

lemma re_search_group_first:
  assumes "\<forall>p s. pre = p @ CHR ''<'' # s \<longrightarrow> (\<exists>a b. s = a @ CHR 0x0A # b \<and> CHR ''>'' \<notin> set a)"
    and "CHR ''>'' \<notin> set g" "CHR 0x0A \<notin> set g"
  shows "re_search_group (pre @ CHR ''<'' # g @ CHR ''>'' # post) = Some g"
  using re_search_group_skip[OF assms(1), of "CHR ''<'' # g @ CHR ''>'' # post"]
    lazy_group_append[OF assms(2,3), of post]
  by simp

lemma lazy_group_Some:
  "lazy_group cs = Some g \<Longrightarrow>
   \<exists>post. cs = g @ CHR ''>'' # post \<and> CHR ''>'' \<notin> set g \<and> CHR 0x0A \<notin> set g"
  by (induction cs arbitrary: g) (auto split: if_splits)

lemma re_search_group_Some:
  "re_search_group h = Some g \<Longrightarrow>
   \<exists>pre post. h = pre @ CHR ''<'' # g @ CHR ''>'' # post \<and> CHR 0x0A \<notin> set g"
proof (induction h)
  case Nil
  then show ?case by simp
next
  case (Cons c cs)
  show ?case
  proof (cases "c = CHR ''<'' \<and> lazy_group cs \<noteq> None")
    case True
    with Cons.prems have "lazy_group cs = Some g" by auto
    then obtain post where "cs = g @ CHR ''>'' # post" "CHR 0x0A \<notin> set g"
      using lazy_group_Some by blast
    with True have "c # cs = [] @ CHR ''<'' # g @ CHR ''>'' # post \<and> CHR 0x0A \<notin> set g" by simp
    then show ?thesis by blast
  next
    case False
    with Cons.prems have "re_search_group cs = Some g" by (auto split: if_splits option.splits)
    with Cons.IH obtain pre post where
      "cs = pre @ CHR ''<'' # g @ CHR ''>'' # post" "CHR 0x0A \<notin> set g" by blast
    then have "c # cs = (c # pre) @ CHR ''<'' # g @ CHR ''>'' # post \<and> CHR 0x0A \<notin> set g" by simp
    then show ?thesis by blast
  qed
qed

lemma next_url_bracket:
  assumes "\<forall>p s. pre = p @ ''<'' @ s \<longrightarrow> (\<exists>a b. s = a @ [CHR 0x0A] @ b \<and> CHR ''>'' \<notin> set a)"
    and "CHR ''>'' \<notin> set g" "CHR 0x0A \<notin> set g"
  shows "next_url (Some (pre @ ''<'' @ g @ ''>'' @ post)) = Some g"
proof -
  from assms(1) have
    "\<forall>p s. pre = p @ CHR ''<'' # s \<longrightarrow> (\<exists>a b. s = a @ CHR 0x0A # b \<and> CHR ''>'' \<notin> set a)"
    by simp
  from re_search_group_first[OF this assms(2,3), of post] show ?thesis
    by (simp add: next_url_def)
qed

lemma next_url_none:
  assumes "link = None \<or>
     (\<exists>h. link = Some h \<and>
          \<not> (\<exists>pre g post. h = pre @ ''<'' @ g @ ''>'' @ post \<and> CHR 0x0A \<notin> set g))"
  shows "next_url link = None"
proof (cases link)
  case None
  then show ?thesis by (simp add: next_url_def)
next
  case (Some h)
  with assms have nb:
    "\<not> (\<exists>pre g post. h = pre @ ''<'' @ g @ ''>'' @ post \<and> CHR 0x0A \<notin> set g)" by auto
  have "re_search_group h = None"
  proof (rule ccontr)
    assume "re_search_group h \<noteq> None"
    then obtain g where "re_search_group h = Some g" by auto
    from re_search_group_Some[OF this] obtain pre post where
      "h = pre @ CHR ''<'' # g @ CHR ''>'' # post" "CHR 0x0A \<notin> set g" by blast
    then have "h = pre @ ''<'' @ g @ ''>'' @ post \<and> CHR 0x0A \<notin> set g" by simp
    with nb show False by blast
  qed
  with Some show ?thesis by (simp add: next_url_def)
qed

lemma fetch_loop_page_locals:
  assumes "page_records rp r = Some recs" "url lv = Some u" "u \<noteq> []"
  shows "fetch_loop rp lv (Response r # net) tr =
     fetch_loop rp \<lparr>url = next_url (link_header r), all_data = all_data lv @ [frame_of_records recs],
          response = Some r\<rparr> net (tr @ [Get u])"
  using assms(2,3) by (simp add: fetch_iteration_page[OF assms(1)])

lemma fetch_loop_linked:
  assumes "\<forall>p \<in> set pages. truthy (next_url (link_header p)) \<and> page_records rp p \<noteq> None"
    and "u \<noteq> []"
  shows "fetch_loop rp \<lparr>url = Some u, all_data = acc, response = r0\<rparr>
           (map Response pages @ rest) tr =
         fetch_loop rp
           \<lparr>url = Some (last (u # links pages)),
            all_data = acc @ map (\<lambda>p. frame_of_records
                       (case page_records rp p of Some recs \<Rightarrow> recs | None \<Rightarrow> [])) pages,
            response = (if pages = [] then r0 else Some (last pages))\<rparr>
           rest (tr @ map Get (butlast (u # links pages)))"
  using assms
proof (induction pages arbitrary: u acc r0 tr)
  case Nil
  then show ?case by (simp add: links_def)
next
  case (Cons p ps)
  then obtain recs where recs: "page_records rp p = Some recs" by auto
  from Cons.prems obtain v where v: "next_url (link_header p) = Some v" "v \<noteq> []"
    by (auto simp: truthy_def split: option.splits)
  have lk: "links (p # ps) = v # links ps" by (simp add: links_def v)
  have "fetch_loop rp \<lparr>url = Some u, all_data = acc, response = r0\<rparr>
           (map Response (p # ps) @ rest) tr =
        fetch_loop rp \<lparr>url = Some v, all_data = acc @ [frame_of_records recs], response = Some p\<rparr>
           (map Response ps @ rest) (tr @ [Get u])"
    using fetch_loop_page[OF recs \<open>u \<noteq> []\<close>] v by (simp del: fetch_loop.simps)
  also have "\<dots> = fetch_loop rp
           \<lparr>url = Some (last (v # links ps)),
            all_data = (acc @ [frame_of_records recs]) @ map (\<lambda>p. frame_of_records
                       (case page_records rp p of Some recs \<Rightarrow> recs | None \<Rightarrow> [])) ps,
            response = (if ps = [] then Some p else Some (last ps))\<rparr>
           rest ((tr @ [Get u]) @ map Get (butlast (v # links ps)))"
    using Cons.prems v by (intro Cons.IH) auto
  finally show ?case using recs by (simp add: lk del: fetch_loop.simps)
qed

lemma fetch_loop_failure:
  assumes "u \<noteq> []"
    and "(\<exists>r. out = Response r \<and> 400 \<le> status_code r \<and> status_code r < 600 \<and> status_code r \<noteq> 429)
       \<or> (\<exists>e r'. out = Raises e \<and> class_of e = RequestException \<and> r0 = Some r' \<and>
                  status_code r' \<noteq> 429)"
  shows "\<exists>msg lv'.
     fetch_loop rp \<lparr>url = Some u, all_data = acc, response = r0\<rparr> (out # rest) tr =
       Some (Inr lv', rest, tr @ [Get u, Log ERROR msg]) \<and> all_data lv' = acc"
  using assms
  by (auto simp: fetch_iteration_def try_body_def raise_for_status_def except_handler_def Let_def)

lemma fetch_loop_until_failure:
  assumes linked: "\<forall>p \<in> set pages. truthy (next_url (link_header p)) \<and> page_records rp p \<noteq> None"
    and fail: "(\<exists>r. out = Response r \<and> 400 \<le> status_code r \<and> status_code r < 600 \<and>
                    status_code r \<noteq> 429)
             \<or> (\<exists>e. out = Raises e \<and> class_of e = RequestException \<and> pages \<noteq> [])"
    and ne: "u \<noteq> []"
  shows "\<exists>msg lv'.
     fetch_loop rp \<lparr>url = Some u, all_data = [], response = None\<rparr>
       (map Response pages @ out # rest) tr =
       Some (Inr lv', rest, tr @ map Get (u # links pages) @ [Log ERROR msg])
     \<and> all_data lv' =
         map frame_of_records
           (map (\<lambda>p. case page_records rp p of Some recs \<Rightarrow> recs | None \<Rightarrow> []) pages)"
proof -
  define frames where
    "frames = map frame_of_records
       (map (\<lambda>p. case page_records rp p of Some recs \<Rightarrow> recs | None \<Rightarrow> []) pages)"
  define r1 where "r1 = (if pages = [] then None else Some (last pages))"
  define u1 where "u1 = last (u # links pages)"
  have fr: "map (\<lambda>p. frame_of_records
              (case page_records rp p of Some recs \<Rightarrow> recs | None \<Rightarrow> [])) pages = frames"
    by (simp add: frames_def comp_def)
  have step1: "fetch_loop rp \<lparr>url = Some u, all_data = [], response = None\<rparr>
                (map Response pages @ out # rest) tr =
        fetch_loop rp \<lparr>url = Some u1, all_data = frames, response = r1\<rparr>
          (out # rest) (tr @ map Get (butlast (u # links pages)))"
    unfolding u1_def r1_def
    using fetch_loop_linked[OF linked ne, of "[]" None "out # rest" tr]
    by (simp add: fr del: fetch_loop.simps)
  have u1: "u1 \<noteq> []"
  proof (cases "links pages = []")
    case True
    with ne show ?thesis by (simp add: u1_def)
  next
    case False
    then have "u1 = last (links pages)" by (simp add: u1_def)
    also have "\<dots> \<in> set (links pages)" using False by simp
    finally obtain p where "p \<in> set pages" "next_url (link_header p) = Some u1"
      by (auto simp: links_def split: option.splits)
    with linked show ?thesis by (auto simp: truthy_def)
  qed
  have fail1: "(\<exists>r. out = Response r \<and> 400 \<le> status_code r \<and> status_code r < 600 \<and>
                    status_code r \<noteq> 429)
       \<or> (\<exists>e r'. out = Raises e \<and> class_of e = RequestException \<and> r1 = Some r' \<and>
                  status_code r' \<noteq> 429)"
  proof -
    have "status_code (last pages) \<noteq> 429" if "pages \<noteq> []"
    proof -
      from that have "last pages \<in> set pages" by simp
      with linked have "page_records rp (last pages) \<noteq> None" by blast
      then show ?thesis by (auto simp: page_records_def split: if_splits)
    qed
    with fail show ?thesis by (auto simp: r1_def)
  qed
  from fetch_loop_failure[OF u1 fail1, of rp frames rest
      "tr @ map Get (butlast (u # links pages))"]
  obtain msg lv' where step2:
    "fetch_loop rp \<lparr>url = Some u1, all_data = frames, response = r1\<rparr> (out # rest)
       (tr @ map Get (butlast (u # links pages))) =
     Some (Inr lv', rest, (tr @ map Get (butlast (u # links pages))) @ [Get u1, Log ERROR msg])"
    and ad: "all_data lv' = frames" by blast
  have gets: "map Get (butlast (u # links pages)) @ [Get u1] = map Get (u # links pages)"
    unfolding u1_def by (metis append_butlast_last_id list.distinct(1) list.simps(9) map_append
        list.map(1))
  define gs :: "'a event list" where "gs = map Get (butlast (u # links pages))"
  have e: "(tr @ gs) @ [Get u1, Log ERROR msg] = tr @ (gs @ [Get u1]) @ [Log ERROR msg]"
    by simp
  have g2: "gs @ [Get u1] = map Get (u # links pages)"
    using gets by (simp only: gs_def)
  have "fetch_loop rp \<lparr>url = Some u, all_data = [], response = None\<rparr>
                (map Response pages @ out # rest) tr =
     Some (Inr lv', rest, (tr @ gs) @ [Get u1, Log ERROR msg])"
    unfolding gs_def by (rule trans[OF step1 step2])
  then have "fetch_loop rp \<lparr>url = Some u, all_data = [], response = None\<rparr>
                (map Response pages @ out # rest) tr =
     Some (Inr lv', rest, tr @ map Get (u # links pages) @ [Log ERROR msg])"
    by (simp only: e g2)
  with ad show ?thesis unfolding frames_def by blast
qed

lemma fetch_after_loop:
  assumes loop:
    "fetch_loop record_path
       \<lparr>url = Some (''https://'' @ dmn @ ''.freshservice.com/api/v2/'' @ endpoint),
        all_data = [], response = None\<rparr>
       (network st)
       (trace st @
          [Log INFO (''Fetching data from '' @
                     (''https://'' @ dmn @ ''.freshservice.com/api/v2/'' @ endpoint) @ ''...'')])
     = Some (Inr lv, net, tr)"
    and ad: "all_data lv = map frame_of_records rss"
  shows "fetch_data_from_endpoint str_upper api_key dmn pw endpoint record_path st =
     (if concat (concat rss) = []
      then Some (Inl (Exc AttributeError ''Can only use .str accessor with string values!''),
                 \<lparr>network = net, trace = tr\<rparr>)
      else Some (Inr \<lparr>columns = map str_upper (columns (pd_concat (map frame_of_records rss))),
                      rows = map (row_of (columns (pd_concat (map frame_of_records rss))))
                               (concat rss)\<rparr>,
                 \<lparr>network = net,
                  trace = tr @ [Log INFO (''Finished fetching. Total records retrieved: '' @
                                  show_nat (length (concat rss)) @ ''.'')]\<rparr>))"
proof (cases "rss = []")
  case True
  with ad have "all_data lv = []" by simp
  with True show ?thesis
    unfolding fetch_data_from_endpoint_def Let_def loop
    by (simp add: upper_columns_def empty_frame_def)
next
  case False
  with ad have ne: "all_data lv \<noteq> []" by simp
  show ?thesis
  proof (cases "concat (concat rss) = []")
    case True
    from columns_pd_concat_unlabelled[OF True] True ne ad show ?thesis
      unfolding fetch_data_from_endpoint_def Let_def loop
      by (simp add: upper_columns_def)
  next
    case False
    from columns_pd_concat_labelled[OF False] False ne ad show ?thesis
      unfolding fetch_data_from_endpoint_def Let_def loop
      by (simp add: upper_columns_def rows_pd_concat_frames)
  qed
qed

lemma all_records_concat:
  "all_records record_path pages =
     concat (map (\<lambda>p. case page_records record_path p of Some recs \<Rightarrow> recs | None \<Rightarrow> []) pages)"
  by (simp add: all_records_def)

lemma fetch_keeps_collected_pages:
  assumes linked: "\<forall>p \<in> set pages. truthy (next_url (link_header p)) \<and>
                                  page_records record_path p \<noteq> None"
    and fail: "(\<exists>r. out = Response r \<and> 400 \<le> status_code r \<and> status_code r < 600 \<and>
                    status_code r \<noteq> 429)
             \<or> (\<exists>e. out = Raises e \<and> class_of e = RequestException \<and> pages \<noteq> [])"
    and labelled: "concat (all_records record_path pages) \<noteq> []"
    and net: "network st = map Response pages @ out # rest"
  shows "\<exists>cols msg.
     fetch_data_from_endpoint str_upper api_key dmn pw endpoint record_path st =
       Some (Inr \<lparr>columns = map str_upper cols,
                  rows = map (row_of cols) (all_records record_path pages)\<rparr>,
         \<lparr>network = rest,
          trace = trace st @
            Log INFO (''Fetching data from '' @
                      (''https://'' @ dmn @ ''.freshservice.com/api/v2/'' @ endpoint) @ ''...'') #
            map Get ((''https://'' @ dmn @ ''.freshservice.com/api/v2/'' @ endpoint) #
                     links pages) @
            [Log ERROR msg,
             Log INFO (''Finished fetching. Total records retrieved: '' @
                       show_nat (length (all_records record_path pages)) @ ''.'')]\<rparr>)
     \<and> set cols = fst ` set (concat (all_records record_path pages))
     \<and> distinct cols"
proof -
  define url0 where "url0 = ''https://'' @ dmn @ ''.freshservice.com/api/v2/'' @ endpoint"
  define rss where
    "rss = map (\<lambda>p. case page_records record_path p of Some recs \<Rightarrow> recs | None \<Rightarrow> []) pages"
  define tr0 where "tr0 = trace st @ [Log INFO (''Fetching data from '' @ url0 @ ''...'')]"
  define cols where "cols = columns (pd_concat (map frame_of_records rss))"
  have ne: "url0 \<noteq> []" by (simp add: url0_def)
  have all: "all_records record_path pages = concat rss"
    by (simp add: all_records_concat rss_def)
  from fetch_loop_until_failure[OF linked fail ne, of rest tr0]
  obtain msg lv' where
    loop: "fetch_loop record_path \<lparr>url = Some url0, all_data = [], response = None\<rparr>
             (network st) tr0 =
           Some (Inr lv', rest, tr0 @ map Get (url0 # links pages) @ [Log ERROR msg])"
    and ad: "all_data lv' = map frame_of_records rss"
    unfolding net rss_def by blast
  from labelled have lab: "concat (concat rss) \<noteq> []" by (simp add: all)
  have res: "fetch_data_from_endpoint str_upper api_key dmn pw endpoint record_path st =
       Some (Inr \<lparr>columns = map str_upper cols, rows = map (row_of cols) (concat rss)\<rparr>,
         \<lparr>network = rest,
          trace = (tr0 @ map Get (url0 # links pages) @ [Log ERROR msg]) @
            [Log INFO (''Finished fetching. Total records retrieved: '' @
                       show_nat (length (concat rss)) @ ''.'')]\<rparr>)"
    using fetch_after_loop[OF loop[unfolded tr0_def url0_def] ad, of str_upper api_key pw] lab
    by (simp only: cols_def if_False tr0_def url0_def)
  have c: "set cols = fst ` set (concat (concat rss))" "distinct cols"
    by (simp_all add: cols_def columns_pd_concat_frames distinct_columns_pd_concat)
  show ?thesis
    apply (rule exI[of _ cols], rule exI[of _ msg])
    using res c by (simp add: all tr0_def url0_def)
qed

lemma fetch_failure_without_labels:
  assumes linked: "\<forall>p \<in> set pages. truthy (next_url (link_header p)) \<and>
                                  page_records record_path p \<noteq> None"
    and fail: "(\<exists>r. out = Response r \<and> 400 \<le> status_code r \<and> status_code r < 600 \<and>
                    status_code r \<noteq> 429)
             \<or> (\<exists>e. out = Raises e \<and> class_of e = RequestException \<and> pages \<noteq> [])"
    and unlabelled: "concat (all_records record_path pages) = []"
    and net: "network st = map Response pages @ out # rest"
  shows "\<exists>msg.
     fetch_data_from_endpoint str_upper api_key dmn pw endpoint record_path st =
       Some (Inl (Exc AttributeError ''Can only use .str accessor with string values!''),
         \<lparr>network = rest,
          trace = trace st @
            Log INFO (''Fetching data from '' @
                      (''https://'' @ dmn @ ''.freshservice.com/api/v2/'' @ endpoint) @ ''...'') #
            map Get ((''https://'' @ dmn @ ''.freshservice.com/api/v2/'' @ endpoint) #
                     links pages) @
            [Log ERROR msg]\<rparr>)"
proof -
  define url0 where "url0 = ''https://'' @ dmn @ ''.freshservice.com/api/v2/'' @ endpoint"
  define rss where
    "rss = map (\<lambda>p. case page_records record_path p of Some recs \<Rightarrow> recs | None \<Rightarrow> []) pages"
  define tr0 where "tr0 = trace st @ [Log INFO (''Fetching data from '' @ url0 @ ''...'')]"
  have ne: "url0 \<noteq> []" by (simp add: url0_def)
  have all: "all_records record_path pages = concat rss"
    by (simp add: all_records_concat rss_def)
  from fetch_loop_until_failure[OF linked fail ne, of rest tr0]
  obtain msg lv' where
    loop: "fetch_loop record_path \<lparr>url = Some url0, all_data = [], response = None\<rparr>
             (network st) tr0 =
           Some (Inr lv', rest, tr0 @ map Get (url0 # links pages) @ [Log ERROR msg])"
    and ad: "all_data lv' = map frame_of_records rss"
    unfolding net rss_def by blast
  from unlabelled have lab: "concat (concat rss) = []" by (simp add: all)
  have res: "fetch_data_from_endpoint str_upper api_key dmn pw endpoint record_path st =
       Some (Inl (Exc AttributeError ''Can only use .str accessor with string values!''),
         \<lparr>network = rest, trace = tr0 @ map Get (url0 # links pages) @ [Log ERROR msg]\<rparr>)"
    using fetch_after_loop[OF loop[unfolded tr0_def url0_def] ad, of str_upper api_key pw] lab
    by (simp only: if_True tr0_def url0_def simp_thms)
  show ?thesis
    apply (rule exI[of _ msg])
    using res by (simp add: tr0_def url0_def)
qed

lemma fetch_pages_with_labels:
  assumes pag: "paginated pages"
    and recs: "\<forall>p \<in> set pages. \<exists>recs. page_records record_path p = Some recs \<and> length recs = K"
    and labelled: "concat (all_records record_path pages) \<noteq> []"
    and net: "network st = map Response pages @ rest"
  shows "\<exists>cols.
     fetch_data_from_endpoint str_upper api_key dmn pw endpoint record_path st =
       Some (Inr \<lparr>columns = map str_upper cols,
                  rows = map (row_of cols) (all_records record_path pages)\<rparr>,
         \<lparr>network = rest,
          trace = trace st @
            Log INFO (''Fetching data from '' @
                      (''https://'' @ dmn @ ''.freshservice.com/api/v2/'' @ endpoint) @ ''...'') #
            map Get ((''https://'' @ dmn @ ''.freshservice.com/api/v2/'' @ endpoint) #
                     links (butlast pages)) @
            [Log INFO (''Finished fetching. Total records retrieved: '' @
                       show_nat (length pages * K) @ ''.'')]\<rparr>)
     \<and> set cols = fst ` set (concat (all_records record_path pages))
     \<and> distinct cols
     \<and> length (links (butlast pages)) = length pages - 1
     \<and> length (all_records record_path pages) = length pages * K"
proof -
  define url0 where "url0 = ''https://'' @ dmn @ ''.freshservice.com/api/v2/'' @ endpoint"
  define rss where
    "rss = map (\<lambda>p. case page_records record_path p of Some recs \<Rightarrow> recs | None \<Rightarrow> []) pages"
  define tr0 where "tr0 = trace st @ [Log INFO (''Fetching data from '' @ url0 @ ''...'')]"
  define cols where "cols = columns (pd_concat (map frame_of_records rss))"
  define lv where
    "lv = \<lparr>url = next_url (link_header (last pages)), all_data = map frame_of_records rss,
           response = Some (last pages)\<rparr>"
  have ne: "url0 \<noteq> []" by (simp add: url0_def)
  have some: "\<forall>p \<in> set pages. page_records record_path p \<noteq> None" using recs by auto
  have all: "all_records record_path pages = concat rss"
    by (simp add: all_records_concat rss_def)
  have loop: "fetch_loop record_path \<lparr>url = Some url0, all_data = [], response = None\<rparr>
                (network st) tr0 =
        Some (Inr lv, rest, tr0 @ map Get (url0 # links (butlast pages)))"
    unfolding net lv_def rss_def
    using fetch_loop_pages[OF pag some ne, of "[]" None rest tr0] by (simp add: comp_def)
  have ad: "all_data lv = map frame_of_records rss" by (simp add: lv_def)
  from labelled have lab: "concat (concat rss) \<noteq> []" by (simp add: all)
  have lens: "\<forall>xs \<in> set rss. length xs = K" using recs by (auto simp: rss_def)
  have len: "length (concat rss) = length pages * K"
    using length_concat_const[OF lens] by (simp add: rss_def)
  have res: "fetch_data_from_endpoint str_upper api_key dmn pw endpoint record_path st =
       Some (Inr \<lparr>columns = map str_upper cols, rows = map (row_of cols) (concat rss)\<rparr>,
         \<lparr>network = rest,
          trace = (tr0 @ map Get (url0 # links (butlast pages))) @
            [Log INFO (''Finished fetching. Total records retrieved: '' @
                       show_nat (length (concat rss)) @ ''.'')]\<rparr>)"
    using fetch_after_loop[OF loop[unfolded tr0_def url0_def] ad, of str_upper api_key pw] lab
    by (simp only: cols_def if_False tr0_def url0_def)
  have c: "set cols = fst ` set (concat (concat rss))" "distinct cols"
    by (simp_all add: cols_def columns_pd_concat_frames distinct_columns_pd_concat)
  show ?thesis
    apply (rule exI[of _ cols])
    using res c len length_links_butlast[OF pag] by (simp add: all tr0_def url0_def)
qed

lemma fetch_pages_without_labels:
  assumes pag: "paginated pages"
    and recs: "\<forall>p \<in> set pages. page_records record_path p \<noteq> None"
    and unlabelled: "concat (all_records record_path pages) = []"
    and net: "network st = map Response pages @ rest"
  shows
    "fetch_data_from_endpoint str_upper api_key dmn pw endpoint record_path st =
       Some (Inl (Exc AttributeError ''Can only use .str accessor with string values!''),
         \<lparr>network = rest,
          trace = trace st @
            Log INFO (''Fetching data from '' @
                      (''https://'' @ dmn @ ''.freshservice.com/api/v2/'' @ endpoint) @ ''...'') #
            map Get ((''https://'' @ dmn @ ''.freshservice.com/api/v2/'' @ endpoint) #
                     links (butlast pages))\<rparr>)"
proof -
  define url0 where "url0 = ''https://'' @ dmn @ ''.freshservice.com/api/v2/'' @ endpoint"
  define rss where
    "rss = map (\<lambda>p. case page_records record_path p of Some recs \<Rightarrow> recs | None \<Rightarrow> []) pages"
  define tr0 where "tr0 = trace st @ [Log INFO (''Fetching data from '' @ url0 @ ''...'')]"
  define lv where
    "lv = \<lparr>url = next_url (link_header (last pages)), all_data = map frame_of_records rss,
           response = Some (last pages)\<rparr>"
  have ne: "url0 \<noteq> []" by (simp add: url0_def)
  have all: "all_records record_path pages = concat rss"
    by (simp add: all_records_concat rss_def)
  have loop: "fetch_loop record_path \<lparr>url = Some url0, all_data = [], response = None\<rparr>
                (network st) tr0 =
        Some (Inr lv, rest, tr0 @ map Get (url0 # links (butlast pages)))"
    unfolding net lv_def rss_def
    using fetch_loop_pages[OF pag recs ne, of "[]" None rest tr0] by (simp add: comp_def)
  have ad: "all_data lv = map frame_of_records rss" by (simp add: lv_def)
  from unlabelled have lab: "concat (concat rss) = []" by (simp add: all)
  have res: "fetch_data_from_endpoint str_upper api_key dmn pw endpoint record_path st =
       Some (Inl (Exc AttributeError ''Can only use .str accessor with string values!''),
         \<lparr>network = rest, trace = tr0 @ map Get (url0 # links (butlast pages))\<rparr>)"
    using fetch_after_loop[OF loop[unfolded tr0_def url0_def] ad, of str_upper api_key pw] lab
    by (simp only: if_True tr0_def url0_def simp_thms)
  then show ?thesis by (simp add: tr0_def url0_def)
qed

lemma fetch_loop_after_page:
  assumes page: "page_records record_path r = Some recs" and u: "u \<noteq> []"
  shows "fetch_loop record_path (lv\<lparr>url := Some u\<rparr>) (Response r # net) tr =
         fetch_loop record_path
           \<lparr>url = next_url (link_header r), all_data = all_data lv @ [frame_of_records recs],
            response = Some r\<rparr>
           net (tr @ [Get u])"
  using fetch_loop_page_locals[OF page, of "lv\<lparr>url := Some u\<rparr>" u net tr] u by simp

lemma fetch_loop_ends_after_page:
  assumes page: "page_records record_path r = Some recs" and u: "u \<noteq> []"
    and nu: "\<not> truthy (next_url (link_header r))"
  shows "fetch_loop record_path (lv\<lparr>url := Some u\<rparr>) (Response r # net) tr =
         Some (Inr \<lparr>url = next_url (link_header r),
                    all_data = all_data lv @ [frame_of_records recs], response = Some r\<rparr>,
               net, tr @ [Get u])"
  unfolding fetch_loop_after_page[OF page u]
  using nu by (simp add: fetch_loop_exit del: fetch_loop.simps)

lemma fetch_loop_second_request:
  assumes page: "page_records record_path r = Some recs" and u: "u \<noteq> []"
    and nu: "next_url (link_header r) = Some g" and g: "g \<noteq> []"
  shows "fetch_loop record_path (lv\<lparr>url := Some u\<rparr>) (Response r # out # net) tr =
     (case fetch_iteration record_path g out
             \<lparr>url = Some g, all_data = all_data lv @ [frame_of_records recs],
              response = Some r\<rparr> of
        (Continue lv', evs) \<Rightarrow> fetch_loop record_path lv' net (tr @ Get u # Get g # evs)
      | (Break lv', evs) \<Rightarrow> Some (Inr lv', net, tr @ Get u # Get g # evs)
      | (Raise e, evs) \<Rightarrow> Some (Inl e, net, tr @ Get u # Get g # evs))"
  unfolding fetch_loop_after_page[OF page u] nu
  using g by (simp split: prod.splits control.splits)

lemma fetch_loop_two_pages:
  assumes page: "page_records record_path r = Some recs" and u: "u \<noteq> []"
    and nu: "next_url (link_header r) = Some g" and g: "g \<noteq> []"
    and page2: "page_records record_path r2 = Some recs2"
    and nu2: "next_url (link_header r2) = None"
  shows "fetch_loop record_path (lv\<lparr>url := Some u\<rparr>) (Response r # Response r2 # net) tr =
     Some (Inr \<lparr>url = None,
                all_data = all_data lv @ [frame_of_records recs, frame_of_records recs2],
                response = Some r2\<rparr>,
           net, tr @ [Get u, Get g])"
proof -
  let ?lv1 = "\<lparr>url = Some g, all_data = all_data lv @ [frame_of_records recs],
               response = Some r\<rparr>"
  have "fetch_loop record_path (lv\<lparr>url := Some u\<rparr>) (Response r # Response r2 # net) tr =
        fetch_loop record_path ?lv1 (Response r2 # net) (tr @ [Get u])"
    unfolding fetch_loop_after_page[OF page u] nu ..
  also have "\<dots> = fetch_loop record_path (?lv1\<lparr>url := Some g\<rparr>) (Response r2 # net) (tr @ [Get u])"
    by simp
  also have "\<dots> = Some (Inr \<lparr>url = next_url (link_header r2),
                    all_data = all_data ?lv1 @ [frame_of_records recs2], response = Some r2\<rparr>,
               net, (tr @ [Get u]) @ [Get g])"
    by (rule fetch_loop_ends_after_page[OF page2 g]) (simp add: nu2 truthy_def)
  finally show ?thesis by (simp add: nu2)
qed

section \<open>The paginated fetcher: claims\<close>

text \<open>
  C2 does not hold of the code when the pages hold no record (K = 0), which is what the
  API answers when no ticket has changed since the watermark: the page gives a table
  without columns, and line 134 raises an AttributeError on it. No table is returned and
  the end of the fetch is not logged. The same happens after any number of pages whose
  records have no key (\<open>fetch_pages_without_labels\<close>). When at least one record has
  a key, \<open>fetch_pages_with_labels\<close> shows what C2 says: one request per page in
  order and no further one, and a table of N times K rows, the row at each position made
  of the record at that position in the sequence of all records of all pages.
\<close>

theorem no_records_raises_AttributeError:
  "fetch_data_from_endpoint str_upper api_key dmn pw endpoint record_path
     (st\<lparr>network :=
           Response (r\<lparr>status_code := 200, link_header := None,
                       json := Inr [(record_path, [])]\<rparr>) # rest\<rparr>) =
   Some (Inl (Exc AttributeError ''Can only use .str accessor with string values!''),
     \<lparr>network = rest,
      trace = trace st @
        [Log INFO (''Fetching data from '' @
                   (''https://'' @ dmn @ ''.freshservice.com/api/v2/'' @ endpoint) @ ''...''),
         Get (''https://'' @ dmn @ ''.freshservice.com/api/v2/'' @ endpoint)]\<rparr>)"
  by (simp add: fetch_data_from_endpoint_def fetch_iteration_def try_body_def
      raise_for_status_def json_normalize_def frame_of_records_def ordered_union_def
      next_url_def truthy_def fetch_loop_exit upper_columns_def pd_concat_def Let_def)

text \<open>
  C9, as amended. After a successful page the loop variable \<^verbatim>\<open>url\<close> is the text \<open>g\<close>
  between a \<^verbatim>\<open><\<close> of the \<^verbatim>\<open>Link\<close> header and the first \<^verbatim>\<open>>\<close> behind it, for the first
  \<^verbatim>\<open><\<close> at which no line feed comes before that \<^verbatim>\<open>>\<close>: every earlier \<^verbatim>\<open><\<close> is followed
  by a line feed before any \<^verbatim>\<open>>\<close>. What follows the \<^verbatim>\<open>>\<close> (a \<^verbatim>\<open>rel\<close> attribute) is
  not looked at. When \<open>g\<close> is empty the loop ends without a further request. Otherwise the
  next request goes to \<open>g\<close>, and what it brings decides how the loop goes on; when it
  brings a page that names no next URL, the loop returns after these two requests. When
  the header is absent or holds no text in angle brackets free of line feeds, the loop
  ends without a further request.
\<close>

theorem next_url_first_bracket_on_one_line:
  assumes page: "page_records record_path r = Some recs" and u: "u \<noteq> []"
  shows
   "(\<forall>pre g post.
        link_header r = Some (pre @ ''<'' @ g @ ''>'' @ post) \<and>
        (\<forall>p s. pre = p @ ''<'' @ s \<longrightarrow> (\<exists>a b. s = a @ [CHR 0x0A] @ b \<and> CHR ''>'' \<notin> set a)) \<and>
        CHR ''>'' \<notin> set g \<and> CHR 0x0A \<notin> set g \<longrightarrow>
        fetch_iteration record_path u (Response r) lv =
          (Continue \<lparr>url = Some g, all_data = all_data lv @ [frame_of_records recs],
                     response = Some r\<rparr>, [])
        \<and> (g = [] \<longrightarrow>
             (\<forall>net tr.
                fetch_loop record_path (lv\<lparr>url := Some u\<rparr>) (Response r # net) tr =
                  Some (Inr \<lparr>url = Some [], all_data = all_data lv @ [frame_of_records recs],
                             response = Some r\<rparr>, net, tr @ [Get u])))
        \<and> (g \<noteq> [] \<longrightarrow>
             (\<forall>out net tr.
                fetch_loop record_path (lv\<lparr>url := Some u\<rparr>) (Response r # out # net) tr =
                  (case fetch_iteration record_path g out
                          \<lparr>url = Some g, all_data = all_data lv @ [frame_of_records recs],
                           response = Some r\<rparr> of
                     (Continue lv', evs) \<Rightarrow>
                       fetch_loop record_path lv' net (tr @ Get u # Get g # evs)
                   | (Break lv', evs) \<Rightarrow> Some (Inr lv', net, tr @ Get u # Get g # evs)
                   | (Raise e, evs) \<Rightarrow> Some (Inl e, net, tr @ Get u # Get g # evs)))
           \<and> (\<forall>r2 recs2 net tr.
                page_records record_path r2 = Some recs2 \<and> next_url (link_header r2) = None \<longrightarrow>
                fetch_loop record_path (lv\<lparr>url := Some u\<rparr>)
                    (Response r # Response r2 # net) tr =
                  Some (Inr \<lparr>url = None,
                             all_data = all_data lv @
                               [frame_of_records recs, frame_of_records recs2],
                             response = Some r2\<rparr>,
                        net, tr @ [Get u, Get g]))))
    \<and> ((link_header r = None \<or>
         (\<exists>h. link_header r = Some h \<and>
              \<not> (\<exists>pre g post. h = pre @ ''<'' @ g @ ''>'' @ post \<and> CHR 0x0A \<notin> set g))) \<longrightarrow>
        (\<forall>net tr.
           fetch_loop record_path (lv\<lparr>url := Some u\<rparr>) (Response r # net) tr =
             Some (Inr \<lparr>url = None, all_data = all_data lv @ [frame_of_records recs],
                        response = Some r\<rparr>, net, tr @ [Get u])))"
proof (rule conjI)
  show "\<forall>pre g post.
        link_header r = Some (pre @ ''<'' @ g @ ''>'' @ post) \<and>
        (\<forall>p s. pre = p @ ''<'' @ s \<longrightarrow> (\<exists>a b. s = a @ [CHR 0x0A] @ b \<and> CHR ''>'' \<notin> set a)) \<and>
        CHR ''>'' \<notin> set g \<and> CHR 0x0A \<notin> set g \<longrightarrow>
        fetch_iteration record_path u (Response r) lv =
          (Continue \<lparr>url = Some g, all_data = all_data lv @ [frame_of_records recs],
                     response = Some r\<rparr>, [])
        \<and> (g = [] \<longrightarrow>
             (\<forall>net tr.
                fetch_loop record_path (lv\<lparr>url := Some u\<rparr>) (Response r # net) tr =
                  Some (Inr \<lparr>url = Some [], all_data = all_data lv @ [frame_of_records recs],
                             response = Some r\<rparr>, net, tr @ [Get u])))
        \<and> (g \<noteq> [] \<longrightarrow>
             (\<forall>out net tr.
                fetch_loop record_path (lv\<lparr>url := Some u\<rparr>) (Response r # out # net) tr =
                  (case fetch_iteration record_path g out
                          \<lparr>url = Some g, all_data = all_data lv @ [frame_of_records recs],
                           response = Some r\<rparr> of
                     (Continue lv', evs) \<Rightarrow>
                       fetch_loop record_path lv' net (tr @ Get u # Get g # evs)
                   | (Break lv', evs) \<Rightarrow> Some (Inr lv', net, tr @ Get u # Get g # evs)
                   | (Raise e, evs) \<Rightarrow> Some (Inl e, net, tr @ Get u # Get g # evs)))
           \<and> (\<forall>r2 recs2 net tr.
                page_records record_path r2 = Some recs2 \<and> next_url (link_header r2) = None \<longrightarrow>
                fetch_loop record_path (lv\<lparr>url := Some u\<rparr>)
                    (Response r # Response r2 # net) tr =
                  Some (Inr \<lparr>url = None,
                             all_data = all_data lv @
                               [frame_of_records recs, frame_of_records recs2],
                             response = Some r2\<rparr>,
                        net, tr @ [Get u, Get g])))"
  proof (intro allI, rule impI)
    fix pre g post
    assume h: "link_header r = Some (pre @ ''<'' @ g @ ''>'' @ post) \<and>
        (\<forall>p s. pre = p @ ''<'' @ s \<longrightarrow> (\<exists>a b. s = a @ [CHR 0x0A] @ b \<and> CHR ''>'' \<notin> set a)) \<and>
        CHR ''>'' \<notin> set g \<and> CHR 0x0A \<notin> set g"
    then have nu: "next_url (link_header r) = Some g"
      using next_url_bracket[of pre g post] by simp
    have a: "fetch_iteration record_path u (Response r) lv =
          (Continue \<lparr>url = Some g, all_data = all_data lv @ [frame_of_records recs],
                     response = Some r\<rparr>, [])"
      by (simp add: fetch_iteration_page[OF page] nu)
    have b: "fetch_loop record_path (lv\<lparr>url := Some u\<rparr>) (Response r # net) tr =
                  Some (Inr \<lparr>url = Some [], all_data = all_data lv @ [frame_of_records recs],
                             response = Some r\<rparr>, net, tr @ [Get u])"
      if "g = []" for net tr
      using fetch_loop_ends_after_page[OF page u, of lv net tr] nu that
      by (simp add: truthy_def)
    have c: "fetch_loop record_path (lv\<lparr>url := Some u\<rparr>) (Response r # out # net) tr =
                  (case fetch_iteration record_path g out
                          \<lparr>url = Some g, all_data = all_data lv @ [frame_of_records recs],
                           response = Some r\<rparr> of
                     (Continue lv', evs) \<Rightarrow>
                       fetch_loop record_path lv' net (tr @ Get u # Get g # evs)
                   | (Break lv', evs) \<Rightarrow> Some (Inr lv', net, tr @ Get u # Get g # evs)
                   | (Raise e, evs) \<Rightarrow> Some (Inl e, net, tr @ Get u # Get g # evs))"
      if "g \<noteq> []" for out net tr
      by (rule fetch_loop_second_request[OF page u nu that])
    have d: "fetch_loop record_path (lv\<lparr>url := Some u\<rparr>)
                    (Response r # Response r2 # net) tr =
                  Some (Inr \<lparr>url = None,
                             all_data = all_data lv @
                               [frame_of_records recs, frame_of_records recs2],
                             response = Some r2\<rparr>,
                        net, tr @ [Get u, Get g])"
      if "g \<noteq> []" "page_records record_path r2 = Some recs2 \<and> next_url (link_header r2) = None"
      for r2 recs2 net tr
      using fetch_loop_two_pages[OF page u nu that(1), of r2 recs2 lv net tr] that(2) by simp
    show "fetch_iteration record_path u (Response r) lv =
          (Continue \<lparr>url = Some g, all_data = all_data lv @ [frame_of_records recs],
                     response = Some r\<rparr>, [])
        \<and> (g = [] \<longrightarrow>
             (\<forall>net tr.
                fetch_loop record_path (lv\<lparr>url := Some u\<rparr>) (Response r # net) tr =
                  Some (Inr \<lparr>url = Some [], all_data = all_data lv @ [frame_of_records recs],
                             response = Some r\<rparr>, net, tr @ [Get u])))
        \<and> (g \<noteq> [] \<longrightarrow>
             (\<forall>out net tr.
                fetch_loop record_path (lv\<lparr>url := Some u\<rparr>) (Response r # out # net) tr =
                  (case fetch_iteration record_path g out
                          \<lparr>url = Some g, all_data = all_data lv @ [frame_of_records recs],
                           response = Some r\<rparr> of
                     (Continue lv', evs) \<Rightarrow>
                       fetch_loop record_path lv' net (tr @ Get u # Get g # evs)
                   | (Break lv', evs) \<Rightarrow> Some (Inr lv', net, tr @ Get u # Get g # evs)
                   | (Raise e, evs) \<Rightarrow> Some (Inl e, net, tr @ Get u # Get g # evs)))
           \<and> (\<forall>r2 recs2 net tr.
                page_records record_path r2 = Some recs2 \<and> next_url (link_header r2) = None \<longrightarrow>
                fetch_loop record_path (lv\<lparr>url := Some u\<rparr>)
                    (Response r # Response r2 # net) tr =
                  Some (Inr \<lparr>url = None,
                             all_data = all_data lv @
                               [frame_of_records recs, frame_of_records recs2],
                             response = Some r2\<rparr>,
                        net, tr @ [Get u, Get g])))"
      apply (rule conjI, rule a)
      apply (rule conjI, rule impI, intro allI, erule b)
      apply (rule impI, rule conjI)
       apply (intro allI, erule c)
      apply (intro allI, rule impI, erule d, assumption)
      done
  qed
next
  show "(link_header r = None \<or>
         (\<exists>h. link_header r = Some h \<and>
              \<not> (\<exists>pre g post. h = pre @ ''<'' @ g @ ''>'' @ post \<and> CHR 0x0A \<notin> set g))) \<longrightarrow>
        (\<forall>net tr.
           fetch_loop record_path (lv\<lparr>url := Some u\<rparr>) (Response r # net) tr =
             Some (Inr \<lparr>url = None, all_data = all_data lv @ [frame_of_records recs],
                        response = Some r\<rparr>, net, tr @ [Get u]))"
  proof (rule impI, intro allI)
    fix net tr
    assume "link_header r = None \<or>
         (\<exists>h. link_header r = Some h \<and>
              \<not> (\<exists>pre g post. h = pre @ ''<'' @ g @ ''>'' @ post \<and> CHR 0x0A \<notin> set g))"
    then have nu: "next_url (link_header r) = None" by (rule next_url_none)
    show "fetch_loop record_path (lv\<lparr>url := Some u\<rparr>) (Response r # net) tr =
             Some (Inr \<lparr>url = None, all_data = all_data lv @ [frame_of_records recs],
                        response = Some r\<rparr>, net, tr @ [Get u])"
      using fetch_loop_ends_after_page[OF page u, of lv net tr] nu by (simp add: truthy_def)
  qed
qed

theorem next_url_first_bracket_on_one_line_witness:
  "fetch_iteration ''tickets'' ''https://x/1'' (Response example_folded_page)
       \<lparr>url = None, all_data = [], response = None\<rparr> =
     (Continue \<lparr>url = Some ''https://x/2'', all_data = [frame_of_records [[(''id'', 1)]]],
                response = Some example_folded_page\<rparr>, [])
   \<and> fetch_loop ''tickets'' \<lparr>url = Some ''https://x/1'', all_data = [], response = None\<rparr>
       [Response example_folded_page, Response example_page2] [] =
     Some (Inr \<lparr>url = None,
                all_data = [frame_of_records [[(''id'', 1)]],
                            frame_of_records
                              [[(''id'', 3), (''custom_fields.team'', 7)], [(''id'', 4)]]],
                response = Some example_page2\<rparr>,
           [], [Get ''https://x/1'', Get ''https://x/2''])
   \<and> fetch_loop ''tickets'' \<lparr>url = Some ''https://x/1'', all_data = [], response = None\<rparr>
       [Response example_blank_link_page, Response example_page2] [] =
     Some (Inr \<lparr>url = Some [], all_data = [frame_of_records [[(''id'', 1)]]],
                response = Some example_blank_link_page\<rparr>,
           [Response example_page2], [Get ''https://x/1''])
   \<and> fetch_loop ''tickets'' \<lparr>url = Some ''https://x/1'', all_data = [], response = None\<rparr>
       [Response example_page2] [] =
     Some (Inr \<lparr>url = None,
                all_data = [frame_of_records
                              [[(''id'', 3), (''custom_fields.team'', 7)], [(''id'', 4)]]],
                response = Some example_page2\<rparr>,
           [], [Get ''https://x/1''])"
proof -
  let ?u = "''https://x/1''"
  let ?g = "''https://x/2''"
  let ?pre = "''<a'' @ [CHR 0x0A] @ ''b> ''"
  let ?lv = "\<lparr>url = None, all_data = ([] :: nat DataFrame list), response = None\<rparr>"
  let ?recs1 = "[[(''id'', 1::nat)]]"
  let ?recs2 = "[[(''id'', 3::nat), (''custom_fields.team'', 7)], [(''id'', 4)]]"
  have u: "?u \<noteq> []" by simp
  have gne: "?g \<noteq> []" by simp
  have pf: "page_records ''tickets'' example_folded_page = Some ?recs1"
    by (simp add: example_folded_page_def page_records_def)
  have pb: "page_records ''tickets'' example_blank_link_page = Some ?recs1"
    by (simp add: example_blank_link_page_def page_records_def)
  have p2: "page_records ''tickets'' example_page2 = Some ?recs2"
    by (simp add: example_page2_def page_records_def)
  have last_page: "page_records ''tickets'' example_page2 = Some ?recs2 \<and>
                   next_url (link_header example_page2) = None"
    by (simp add: example_page2_def page_records_def next_url_def)
  have skip: "\<forall>p s. ?pre = p @ ''<'' @ s \<longrightarrow>
                (\<exists>a b. s = a @ [CHR 0x0A] @ b \<and> CHR ''>'' \<notin> set a)"
  proof (intro allI impI)
    fix p s
    assume e: "?pre = p @ ''<'' @ s"
    have "p = []"
    proof (cases p)
      case Nil
      then show ?thesis .
    next
      case (Cons c p')
      with e have "''a'' @ [CHR 0x0A] @ ''b> '' = p' @ CHR ''<'' # s" by simp
      then have "CHR ''<'' \<in> set (''a'' @ [CHR 0x0A] @ ''b> '')" by (metis in_set_conv_decomp)
      then show ?thesis by simp
    qed
    with e have "s = ''a'' @ [CHR 0x0A] @ ''b> '' \<and> CHR ''>'' \<notin> set ''a''" by simp
    then show "\<exists>a b. s = a @ [CHR 0x0A] @ b \<and> CHR ''>'' \<notin> set a" by blast
  qed
  have hf: "link_header example_folded_page = Some (?pre @ ''<'' @ ?g @ ''>'' @ []) \<and>
        (\<forall>p s. ?pre = p @ ''<'' @ s \<longrightarrow> (\<exists>a b. s = a @ [CHR 0x0A] @ b \<and> CHR ''>'' \<notin> set a)) \<and>
        CHR ''>'' \<notin> set ?g \<and> CHR 0x0A \<notin> set ?g"
    by (intro conjI skip) (simp_all add: example_folded_page_def)
  have hb: "link_header example_blank_link_page = Some ([] @ ''<'' @ [] @ ''>'' @ ''; rel=next'') \<and>
        (\<forall>p s. [] = p @ ''<'' @ s \<longrightarrow> (\<exists>a b. s = a @ [CHR 0x0A] @ b \<and> CHR ''>'' \<notin> set a)) \<and>
        CHR ''>'' \<notin> set [] \<and> CHR 0x0A \<notin> set []"
    by (simp add: example_blank_link_page_def)
  have hn: "link_header example_page2 = None \<or>
         (\<exists>h. link_header example_page2 = Some h \<and>
              \<not> (\<exists>pre g post. h = pre @ ''<'' @ g @ ''>'' @ post \<and> CHR 0x0A \<notin> set g))"
    by (simp add: example_page2_def)
  note tf = next_url_first_bracket_on_one_line[OF pf u, of ?lv, THEN conjunct1, rule_format, OF hf]
  note tb = next_url_first_bracket_on_one_line[OF pb u, of ?lv, THEN conjunct1, rule_format, OF hb]
  note tn = next_url_first_bracket_on_one_line[OF p2 u, of ?lv, THEN conjunct2, rule_format, OF hn]
  have w1: "fetch_iteration ''tickets'' ?u (Response example_folded_page) ?lv =
     (Continue \<lparr>url = Some ?g, all_data = [frame_of_records ?recs1],
                response = Some example_folded_page\<rparr>, [])"
    using tf[THEN conjunct1] by simp
  have w2: "fetch_loop ''tickets'' \<lparr>url = Some ?u, all_data = [], response = None\<rparr>
       [Response example_folded_page, Response example_page2] [] =
     Some (Inr \<lparr>url = None,
                all_data = [frame_of_records ?recs1, frame_of_records ?recs2],
                response = Some example_page2\<rparr>, [], [Get ?u, Get ?g])"
    using tf[THEN conjunct2, THEN conjunct2, rule_format, OF gne, THEN conjunct2, rule_format,
        OF last_page, of "[]" "[]"]
    by (simp del: fetch_loop.simps)
  have w3: "fetch_loop ''tickets'' \<lparr>url = Some ?u, all_data = [], response = None\<rparr>
       [Response example_blank_link_page, Response example_page2] [] =
     Some (Inr \<lparr>url = Some [], all_data = [frame_of_records ?recs1],
                response = Some example_blank_link_page\<rparr>,
           [Response example_page2], [Get ?u])"
    using tb[THEN conjunct2, THEN conjunct1, rule_format, OF refl,
        of "[Response example_page2]" "[]"]
    by (simp del: fetch_loop.simps)
  have w4: "fetch_loop ''tickets'' \<lparr>url = Some ?u, all_data = [], response = None\<rparr>
       [Response example_page2] [] =
     Some (Inr \<lparr>url = None, all_data = [frame_of_records ?recs2],
                response = Some example_page2\<rparr>, [], [Get ?u])"
    using tn[of "[]" "[]"] by (simp del: fetch_loop.simps)
  from w1 w2 w3 w4 show ?thesis by (intro conjI)
qed

text \<open>
  C9 as stated fails: the URL taken is not always the first text of the header that
  angle brackets enclose. \<^verbatim>\<open>.\<close> matches no line feed, so in a header folded inside its
  first brackets the search passes over them and takes the text in the second pair.
\<close>

theorem folded_link_header_counterexample:
  "link_header example_folded_page =
     Some (''<'' @ (''a'' @ [CHR 0x0A] @ ''b'') @ ''>'' @ '' <'' @ ''https://x/2'' @ ''>'')
   \<and> fetch_iteration ''tickets'' ''https://x/1'' (Response example_folded_page)
       \<lparr>url = None, all_data = [], response = None\<rparr> =
     (Continue \<lparr>url = Some ''https://x/2'',
                all_data = [\<lparr>columns = [''id''], rows = [[Some 1]]\<rparr>],
                response = Some example_folded_page\<rparr>, [])"
  by code_simp

text \<open>
  C3 does not hold of the code. A response with status 429 takes the handler to
  \<^verbatim>\<open>time.sleep(60)\<close>, but the module never imports \<^verbatim>\<open>time\<close>: a NameError leaves
  \<^verbatim>\<open>fetch_data_from_endpoint\<close> right after the warning is logged. There is no wait, no
  retry (the outcomes behind the 429 stay unused) and no table.
\<close>

theorem rate_limit_raises_NameError:
  "fetch_data_from_endpoint str_upper api_key dmn pw endpoint record_path
     (st\<lparr>network := Response (r\<lparr>status_code := 429\<rparr>) # rest\<rparr>) =
   Some (Inl (Exc NameError (''name '' @ [CHR 0x27] @ ''time'' @ [CHR 0x27] @ '' is not defined'')),
     \<lparr>network = rest,
      trace = trace st @
        [Log INFO (''Fetching data from '' @
                   (''https://'' @ dmn @ ''.freshservice.com/api/v2/'' @ endpoint) @ ''...''),
         Get (''https://'' @ dmn @ ''.freshservice.com/api/v2/'' @ endpoint),
         Log WARNING ''Rate limit reached. Waiting for 60 seconds before retrying...'']\<rparr>)"
  by (simp add: fetch_data_from_endpoint_def fetch_iteration_def try_body_def
      raise_for_status_def except_handler_def load_global_def module_globals_def Let_def)

text \<open>
  C5 does not hold of the code when the very first \<^verbatim>\<open>requests.get\<close> raises (a
  connection error, a timeout): no response has been bound yet, and the handler's
  \<^verbatim>\<open>response.status_code\<close> raises an UnboundLocalError that leaves
  \<^verbatim>\<open>fetch_data_from_endpoint\<close>. Nothing is logged about the request and no table is
  returned. Nor is an empty table returned when the first response has an HTTP error
  status other than 429: the loop ends with nothing collected, and line 134 raises an
  AttributeError on the table without columns (\<open>fetch_failure_without_labels\<close>). When
  a record with a key has been collected before the failure,
  \<open>fetch_keeps_collected_pages\<close> shows what C5 says.
\<close>

theorem first_request_failure_raises_UnboundLocalError:
  "fetch_data_from_endpoint str_upper api_key dmn pw endpoint record_path
     (st\<lparr>network := Raises (Exc RequestException msg) # rest\<rparr>) =
   Some (Inl (Exc UnboundLocalError
              (''local variable '' @ [CHR 0x27] @ ''response'' @ [CHR 0x27] @
               '' referenced before assignment'')),
     \<lparr>network = rest,
      trace = trace st @
        [Log INFO (''Fetching data from '' @
                   (''https://'' @ dmn @ ''.freshservice.com/api/v2/'' @ endpoint) @ ''...''),
         Get (''https://'' @ dmn @ ''.freshservice.com/api/v2/'' @ endpoint)]\<rparr>)"
  by (simp add: fetch_data_from_endpoint_def fetch_iteration_def try_body_def
      except_handler_def Let_def)

section \<open>Facts about the orchestrator\<close>

lemma uploads_append [simp]: "uploads (a @ b) = uploads a @ uploads b"
  by (induction a rule: uploads.induct) auto

lemma uploads_fetch_iteration:
  "fetch_iteration rp u out lv = (c, evs) \<Longrightarrow> uploads evs = []"
  by (auto simp: fetch_iteration_def except_handler_def Let_def
      split: sum.splits prod.splits option.splits if_splits)

lemma fetch_loop_uploads:
  "fetch_loop rp lv net tr = Some (res, net', tr') \<Longrightarrow> uploads tr' = uploads tr"
proof (induction net arbitrary: lv tr)
  case Nil
  then show ?case by (auto split: if_splits)
next
  case (Cons out net)
  show ?case
  proof (cases "truthy (url lv)")
    case False
    with Cons.prems show ?thesis by (simp add: fetch_loop_exit del: fetch_loop.simps)
  next
    case True
    then obtain u where u: "url lv = Some u" "u \<noteq> []"
      by (auto simp: truthy_def split: option.splits)
    obtain c evs where it: "fetch_iteration rp u out lv = (c, evs)" by force
    note up = uploads_fetch_iteration[OF it]
    show ?thesis
    proof (cases c)
      case (Continue lv')
      with Cons.prems u it have "fetch_loop rp lv' net (tr @ Get u # evs) = Some (res, net', tr')"
        by simp
      from Cons.IH[OF this] up show ?thesis by simp
    next
      case (Break lv')
      with Cons.prems u it up show ?thesis by auto
    next
      case (Raise e)
      with Cons.prems u it up show ?thesis by auto
    qed
  qed
qed

lemma fetch_uploads:
  "fetch_data_from_endpoint f k d pw e rp st = Some (res, st') \<Longrightarrow>
   uploads (trace st') = uploads (trace st)"
  unfolding fetch_data_from_endpoint_def Let_def
  by (auto split: option.splits sum.splits prod.splits dest!: fetch_loop_uploads)

lemma fetch_uppercased:
  "fetch_data_from_endpoint f k d pw e rp st = Some (Inr df, st') \<Longrightarrow>
   \<exists>cols. cols \<noteq> [] \<and> columns df = map f cols"
  unfolding fetch_data_from_endpoint_def Let_def upper_columns_def
  by (auto split: option.splits sum.splits prod.splits if_splits)

lemma and_then_cases:
  assumes "and_then m f st = Some (res, st')"
  obtains (raised) e where "m st = Some (Inl e, st')" "res = Inl e"
        | (went_on) a st1 where "m st = Some (Inr a, st1)" "f a st1 = Some (res, st')"
  using assms unfolding and_then_def by (auto split: option.splits sum.splits prod.splits)

lemma create_session_uploads:
  "returns (create_session env p) st = Some (r, st') \<Longrightarrow> uploads (trace st') = uploads (trace st)"
  by (auto simp: returns_def create_session_def split: sum.splits)

lemma pure_result: "pure x st = Some (r, st') \<Longrightarrow> r = x \<and> st' = st"
  by (simp add: pure_def)

lemma upload_result:
  assumes "returns (upload_df_to_blob env df a c t p) st = Some (r, st')"
  shows "(r = Inr () \<and> uploads (trace st') = uploads (trace st) @ [(p, df)]) \<or>
         (\<exists>e. r = Inl e \<and> st' = st)"
  using assms by (auto simp: returns_def upload_df_to_blob_def split: option.splits)

lemma fetch_effect:
  assumes "fetch_data_from_endpoint f k d pw e rp st = Some (res, st')"
  shows "uploads (trace st') = uploads (trace st) \<and>
         (\<forall>df. res = Inr df \<longrightarrow> (\<exists>cols. cols \<noteq> [] \<and> columns df = map f cols))"
  using fetch_uploads[OF assms] fetch_uppercased assms by blast

lemma main_try_uploads:
  assumes "main_try str_upper env st = Some (res, st1)"
  shows "\<exists>ups agent_groups_df ticket_df ticket_fields_df ca ct cf.
       uploads (trace st1) = uploads (trace st) @ ups
     \<and> prefix ups [(''API_FRESHSERVICE/AGENTGROUPS.csv'', agent_groups_df),
                   (''API_FRESHSERVICE/TICKETS.csv'', rename_ticket_columns ticket_df),
                   (''API_FRESHSERVICE/TICKET_FIELDS.csv'', ticket_fields_df)]
     \<and> ca \<noteq> [] \<and> columns agent_groups_df = map str_upper ca
     \<and> ct \<noteq> [] \<and> columns ticket_df = map str_upper ct
     \<and> cf \<noteq> [] \<and> columns ticket_fields_df = map str_upper cf
     \<and> (res = Inr () \<longrightarrow> length ups = 3)
     \<and> (\<forall>e. res = Inl e \<longrightarrow> length ups < 3)"
proof -
  define up where
    "up = (\<lambda>df :: 'a DataFrame. \<exists>cols. cols \<noteq> [] \<and> columns df = map str_upper cols)"
  define R where
    "R = (\<lambda>ups ag t tf.
       uploads (trace st1) = uploads (trace st) @ ups
     \<and> prefix ups [(''API_FRESHSERVICE/AGENTGROUPS.csv'', ag),
                   (''API_FRESHSERVICE/TICKETS.csv'', rename_ticket_columns t),
                   (''API_FRESHSERVICE/TICKET_FIELDS.csv'', tf)]
     \<and> up ag \<and> up t \<and> up tf
     \<and> (res = Inr () \<longrightarrow> length ups = 3)
     \<and> (\<forall>e. res = Inl e \<longrightarrow> length ups < 3))"
  define d :: "'a DataFrame" where "d = \<lparr>columns = [str_upper []], rows = []\<rparr>"
  have upd: "up d" unfolding up_def d_def by (intro exI[of _ "[[]]"]) simp
  have none: "\<exists>ups ag t tf. R ups ag t tf"
    if "uploads (trace st1) = uploads (trace st)" "res = Inl e" for e
  proof -
    from that upd have "R [] d d d" unfolding R_def by simp
    then show ?thesis by blast
  qed
  have "\<exists>ups ag t tf. R ups ag t tf"
    using assms[unfolded main_try_def Let_def]
  proof (cases rule: and_then_cases)
    case (raised e)
    from create_session_uploads[OF raised(1)] raised(2) show ?thesis by (rule none)
  next
    case c1: (went_on session s1)
    note u1 = create_session_uploads[OF c1(1)]
    from c1(2) show ?thesis
    proof (cases rule: and_then_cases)
      case (raised e)
      with pure_result[OF raised(1)] u1
      have "uploads (trace st1) = uploads (trace st)" "res = Inl e" by simp_all
      then show ?thesis by (rule none)
    next
      case c2: (went_on api_key s2)
      from pure_result[OF c2(1)] u1 have u2: "uploads (trace s2) = uploads (trace st)" by simp
      from c2(2) show ?thesis
      proof (cases rule: and_then_cases)
        case (raised e)
        with pure_result[OF raised(1)] u2
        have "uploads (trace st1) = uploads (trace st)" "res = Inl e" by simp_all
        then show ?thesis by (rule none)
      next
        case c3: (went_on updated_since s3)
        from pure_result[OF c3(1)] u2 have u3: "uploads (trace s3) = uploads (trace st)" by simp
        from c3(2) show ?thesis
        proof (cases rule: and_then_cases)
          case (raised e)
          with pure_result[OF raised(1)] u3
          have "uploads (trace st1) = uploads (trace st)" "res = Inl e" by simp_all
          then show ?thesis by (rule none)
        next
          case c4: (went_on closed s4)
          from pure_result[OF c4(1)] u3 have u4: "uploads (trace s4) = uploads (trace st)" by simp
          from c4(2) show ?thesis
          proof (cases rule: and_then_cases)
            case (raised e)
            with fetch_effect[OF raised(1)] u4
            have "uploads (trace st1) = uploads (trace st)" "res = Inl e" by simp_all
            then show ?thesis by (rule none)
          next
            case c5: (went_on ticket_df s5)
            from fetch_effect[OF c5(1)] u4
            have u5: "uploads (trace s5) = uploads (trace st)"
              and up_t: "up ticket_df" unfolding up_def by simp_all
            from c5(2) show ?thesis
            proof (cases rule: and_then_cases)
              case (raised e)
              with fetch_effect[OF raised(1)] u5
              have "uploads (trace st1) = uploads (trace st)" "res = Inl e" by simp_all
              then show ?thesis by (rule none)
            next
              case c6: (went_on ticket_fields_df s6)
              from fetch_effect[OF c6(1)] u5
              have u6: "uploads (trace s6) = uploads (trace st)"
                and up_tf: "up ticket_fields_df" unfolding up_def by simp_all
              from c6(2) show ?thesis
              proof (cases rule: and_then_cases)
                case (raised e)
                with fetch_effect[OF raised(1)] u6
                have "uploads (trace st1) = uploads (trace st)" "res = Inl e" by simp_all
                then show ?thesis by (rule none)
              next
                case c7: (went_on agent_groups_df s7)
                from fetch_effect[OF c7(1)] u6
                have u7: "uploads (trace s7) = uploads (trace st)"
                  and up_ag: "up agent_groups_df" unfolding up_def by simp_all
                let ?ag = "(''API_FRESHSERVICE/AGENTGROUPS.csv'', agent_groups_df)"
                let ?t = "(''API_FRESHSERVICE/TICKETS.csv'', rename_ticket_columns ticket_df)"
                let ?tf = "(''API_FRESHSERVICE/TICKET_FIELDS.csv'', ticket_fields_df)"
                from c7(2) show ?thesis
                proof (cases rule: and_then_cases)
                  case (raised e)
                  with upload_result[OF raised(1)] u7
                  have "uploads (trace st1) = uploads (trace st)" "res = Inl e" by auto
                  then show ?thesis by (rule none)
                next
                  case c8: (went_on x8 s8)
                  from upload_result[OF c8(1)] u7
                  have u8: "uploads (trace s8) = uploads (trace st) @ [?ag]" by auto
                  from c8(2) show ?thesis
                  proof (cases rule: and_then_cases)
                    case (raised e)
                    with upload_result[OF raised(1)] u8
                    have "uploads (trace st1) = uploads (trace st) @ [?ag]" by auto
                    with raised(2) up_ag up_t up_tf
                    have "R [?ag] agent_groups_df ticket_df ticket_fields_df"
                      unfolding R_def by simp
                    then show ?thesis by blast
                  next
                    case c9: (went_on x9 s9)
                    from upload_result[OF c9(1)] u8
                    have u9: "uploads (trace s9) = uploads (trace st) @ [?ag, ?t]" by auto
                    from upload_result[OF c9(2)] show ?thesis
                    proof
                      assume "res = Inr () \<and> uploads (trace st1) = uploads (trace s9) @ [?tf]"
                      with u9 have "res = Inr ()"
                        "uploads (trace st1) = uploads (trace st) @ [?ag, ?t, ?tf]" by simp_all
                      with up_ag up_t up_tf
                      have "R [?ag, ?t, ?tf] agent_groups_df ticket_df ticket_fields_df"
                        unfolding R_def by simp
                      then show ?thesis by blast
                    next
                      assume "\<exists>e. res = Inl e \<and> st1 = s9"
                      with u9 obtain e where "res = Inl e"
                        "uploads (trace st1) = uploads (trace st) @ [?ag, ?t]" by auto
                      with up_ag up_t up_tf
                      have "R [?ag, ?t] agent_groups_df ticket_df ticket_fields_df"
                        unfolding R_def by simp
                      then show ?thesis by blast
                    qed
                  qed
                qed
              qed
            qed
          qed
        qed
      qed
    qed
  qed
  then obtain ups ag t tf where r: "R ups ag t tf" by blast
  then have "up ag" "up t" "up tf" unfolding R_def by simp_all
  then obtain ca ct cf where
    c: "ca \<noteq> [] \<and> columns ag = map str_upper ca"
       "ct \<noteq> [] \<and> columns t = map str_upper ct"
       "cf \<noteq> [] \<and> columns tf = map str_upper cf"
    unfolding up_def by blast
  from r have f:
    "uploads (trace st1) = uploads (trace st) @ ups"
    "prefix ups [(''API_FRESHSERVICE/AGENTGROUPS.csv'', ag),
                 (''API_FRESHSERVICE/TICKETS.csv'', rename_ticket_columns t),
                 (''API_FRESHSERVICE/TICKET_FIELDS.csv'', tf)]"
    "res = Inr () \<longrightarrow> length ups = 3"
    "\<forall>e. res = Inl e \<longrightarrow> length ups < 3"
    unfolding R_def by simp_all
  show ?thesis
    apply (rule exI[of _ ups], rule exI[of _ ag], rule exI[of _ t], rule exI[of _ tf])
    apply (rule exI[of _ ca], rule exI[of _ ct], rule exI[of _ cf])
    using f c by (intro conjI) simp_all
qed


section \<open>The orchestrator: claims\<close>

text \<open>
  C4. When an exception leaves the body of the \<^verbatim>\<open>try\<close> of \<^verbatim>\<open>main\<close>: if its message
  contains \<^verbatim>\<open>SQL compilation error:\<close>, it is logged and \<^verbatim>\<open>main\<close> returns; otherwise it is
  logged and raised again. In both cases nothing is uploaded after the exception, and
  fewer than three uploads have been made.
\<close>

theorem main_exception_handling:
  assumes "main_try str_upper env st = Some (Inl e, st1)"
  shows "(py_in ''SQL compilation error:'' (str_of e) \<longrightarrow>
           main str_upper env st = Some (Inr (),
             st1\<lparr>trace := trace st1 @
               [Log ERROR (''Encountered a SnowparkSQLException: '' @ str_of e)]\<rparr>))
       \<and> (\<not> py_in ''SQL compilation error:'' (str_of e) \<longrightarrow>
           main str_upper env st = Some (Inl e,
             st1\<lparr>trace := trace st1 @ [Log ERROR (''Encountered an error: '' @ str_of e)]\<rparr>))
       \<and> (\<exists>r st' ups. main str_upper env st = Some (r, st')
             \<and> uploads (trace st') = uploads (trace st1)
             \<and> uploads (trace st1) = uploads (trace st) @ ups \<and> length ups < 3)"
proof -
  from main_try_uploads[OF assms] obtain ups agent_groups_df ticket_df ticket_fields_df ca ct cf
    where u: "uploads (trace st1) = uploads (trace st) @ ups"
      and l': "\<forall>e'. (Inl e :: py_exception + unit) = Inl e' \<longrightarrow> length ups < 3"
    by (elim exE conjE)
  from l' have l: "length ups < 3" by simp
  have a: "py_in ''SQL compilation error:'' (str_of e) \<Longrightarrow>
           main str_upper env st = Some (Inr (),
             st1\<lparr>trace := trace st1 @
               [Log ERROR (''Encountered a SnowparkSQLException: '' @ str_of e)]\<rparr>)"
    unfolding main_def assms by simp
  have b: "\<not> py_in ''SQL compilation error:'' (str_of e) \<Longrightarrow>
           main str_upper env st = Some (Inl e,
             st1\<lparr>trace := trace st1 @ [Log ERROR (''Encountered an error: '' @ str_of e)]\<rparr>)"
    unfolding main_def assms by simp
  have c: "\<exists>r st'. main str_upper env st = Some (r, st') \<and>
                   uploads (trace st') = uploads (trace st1)"
  proof (cases "py_in ''SQL compilation error:'' (str_of e)")
    case True
    from a[OF True] show ?thesis by (intro exI conjI) (assumption, simp)
  next
    case False
    from b[OF False] show ?thesis by (intro exI conjI) (assumption, simp)
  qed
  from a b c u l show ?thesis by blast
qed

theorem main_exception_handling_witness:
  "main_try ascii_upper example_failing_env \<lparr>network = example_network, trace = []\<rparr> =
     Some (Inl (Exc OtherException
         (''(1304): SQL compilation error: Object '' @ [CHR 0x27] @ ''TICKETS'' @ [CHR 0x27] @
          '' does not exist or not authorized.'')),
       \<lparr>network = example_network, trace = [Log INFO ''Creating Snowflake session...'']\<rparr>)
   \<and> main ascii_upper example_failing_env \<lparr>network = example_network, trace = []\<rparr> =
     Some (Inr (),
       \<lparr>network = example_network,
        trace = [Log INFO ''Creating Snowflake session...'',
                 Log ERROR (''Encountered a SnowparkSQLException: (1304): SQL compilation error: Object ''
                    @ [CHR 0x27] @ ''TICKETS'' @ [CHR 0x27] @ '' does not exist or not authorized.'')]\<rparr>)"
proof -
  let ?e = "Exc OtherException
         (''(1304): SQL compilation error: Object '' @ [CHR 0x27] @ ''TICKETS'' @ [CHR 0x27] @
          '' does not exist or not authorized.'')"
  have t: "main_try ascii_upper example_failing_env \<lparr>network = example_network, trace = []\<rparr> =
     Some (Inl ?e,
       \<lparr>network = example_network, trace = [Log INFO ''Creating Snowflake session...'']\<rparr>)"
    by code_simp
  have p: "py_in ''SQL compilation error:'' (str_of ?e)" by code_simp
  from main_exception_handling[OF t, THEN conjunct1, rule_format, OF p] t
  show ?thesis by simp
qed




end
